theory Spec2Isabelle
  imports Main
begin

section \<open>Strings\<close>

text \<open>
  JavaScript strings are modelled as \<^typ>\<open>string\<close>: a list of code units. Indices and
  lengths count code units, as \<^verbatim>\<open>String.prototype.length\<close> and \<^verbatim>\<open>slice\<close> do.
\<close>

abbreviation (input) DQ :: char where "DQ \<equiv> CHR 0x22"
abbreviation (input) SQ :: char where "SQ \<equiv> CHR 0x27"
abbreviation (input) NL :: char where "NL \<equiv> CHR 0x0A"

text \<open>\<^verbatim>\<open>s.endsWith(t)\<close>\<close>

definition endsWith :: "string \<Rightarrow> string \<Rightarrow> bool" where
  "endsWith s t = (length t \<le> length s \<and> drop (length s - length t) s = t)"

text \<open>\<^verbatim>\<open>s.startsWith(t)\<close>\<close>

definition startsWith :: "string \<Rightarrow> string \<Rightarrow> bool" where
  "startsWith s t = (take (length t) s = t)"

text \<open>\<^verbatim>\<open>s.slice(0, -n)\<close>: drops the last \<open>n\<close> code units, the empty string when there are fewer.\<close>

definition sliceEnd :: "string \<Rightarrow> nat \<Rightarrow> string" where
  "sliceEnd s n = take (length s - n) s"

text \<open>\<^verbatim>\<open>s.slice(a, b)\<close> for non-negative \<open>a\<close> and \<open>b\<close>, and \<^verbatim>\<open>s.slice(a)\<close>.\<close>

definition slice :: "string \<Rightarrow> nat \<Rightarrow> nat \<Rightarrow> string" where
  "slice s a b = take (b - a) (drop a s)"

definition sliceFrom :: "string \<Rightarrow> nat \<Rightarrow> string" where
  "sliceFrom s a = drop a s"

text \<open>\<^verbatim>\<open>s.split(c)\<close> for a separator of one code unit: never the empty list.\<close>

fun split :: "char \<Rightarrow> string \<Rightarrow> string list" where
  "split c [] = [[]]"
| "split c (x # xs) =
     (if x = c then [] # split c xs
      else (case split c xs of [] \<Rightarrow> [[x]] | p # ps \<Rightarrow> (x # p) # ps))"

text \<open>\<^verbatim>\<open>parts.join(sep)\<close>\<close>

fun join :: "string \<Rightarrow> string list \<Rightarrow> string" where
  "join sep [] = []"
| "join sep [p] = p"
| "join sep (p # q # ps) = p @ sep @ join sep (q # ps)"

section \<open>The path functions of the host platform\<close>

text \<open>
  \<^verbatim>\<open>path.dirname\<close>, \<^verbatim>\<open>path.resolve\<close> and \<^verbatim>\<open>path.relative\<close> belong to the Node.js
  standard library (POSIX flavour), not to the repository. They are modelled after the
  library's algorithm; the working directory of the process is the parameter \<open>cwd\<close>.
\<close>

text \<open>
  \<^verbatim>\<open>normalizeString\<close>, on the segments between slashes: empty segments and \<^verbatim>\<open>.\<close> are
  skipped, \<^verbatim>\<open>..\<close> removes the segment before it (or is kept, above the start of a
  relative path).
\<close>

fun normalizeSegments :: "bool \<Rightarrow> string list \<Rightarrow> string list \<Rightarrow> string list" where
  "normalizeSegments allowAboveRoot res [] = res"
| "normalizeSegments allowAboveRoot res (seg # segs) =
     (if seg = [] \<or> seg = ''.'' then normalizeSegments allowAboveRoot res segs
      else if seg = ''..'' then
        (if res \<noteq> [] \<and> last res \<noteq> ''..''
           then normalizeSegments allowAboveRoot (butlast res) segs
         else if allowAboveRoot
           then normalizeSegments allowAboveRoot (res @ [''..'']) segs
         else normalizeSegments allowAboveRoot res segs)
      else normalizeSegments allowAboveRoot (res @ [seg]) segs)"

definition normalizeString :: "string \<Rightarrow> bool \<Rightarrow> string" where
  "normalizeString p allowAboveRoot =
     join ''/'' (normalizeSegments allowAboveRoot [] (split (CHR ''/'') p))"

text \<open>
  The loop of \<^verbatim>\<open>path.resolve\<close>: the arguments from the last to the first, then the
  working directory, until an absolute one was prepended.
\<close>

fun resolveArgs :: "string list \<Rightarrow> string \<Rightarrow> bool \<Rightarrow> string \<times> bool" where
  "resolveArgs [] resolvedPath resolvedAbsolute = (resolvedPath, resolvedAbsolute)"
| "resolveArgs (p # ps) resolvedPath resolvedAbsolute =
     (if resolvedAbsolute then (resolvedPath, resolvedAbsolute)
      else if p = [] then resolveArgs ps resolvedPath resolvedAbsolute
      else resolveArgs ps (p @ ''/'' @ resolvedPath) (startsWith p ''/''))"

definition resolve :: "string \<Rightarrow> string list \<Rightarrow> string" where
  "resolve cwd args =
     (case resolveArgs (rev args @ [cwd]) [] False of
        (resolvedPath, resolvedAbsolute) \<Rightarrow>
          (let normalized = normalizeString resolvedPath (\<not> resolvedAbsolute)
           in if resolvedAbsolute then ''/'' @ normalized
              else if normalized \<noteq> [] then normalized else ''.''))"

text \<open>\<^verbatim>\<open>path.dirname\<close>: the scan from the end skips trailing slashes, then the last segment.\<close>

definition dirname :: "string \<Rightarrow> string" where
  "dirname p =
     (if p = [] then ''.''
      else
        (let hasRoot = startsWith p ''/'';
             beforeName = dropWhile (\<lambda>c. c \<noteq> CHR ''/'')
                            (dropWhile (\<lambda>c. c = CHR ''/'') (rev (tl p)))
         in if beforeName = [] then (if hasRoot then ''/'' else ''.'')
            else if hasRoot \<and> length beforeName = 1 then ''//''
            else take (length beforeName) p))"

text \<open>
  \<^verbatim>\<open>path.relative\<close>: the longest common prefix of the two resolved paths (after their
  leading slash), with the index of its last slash.
\<close>

fun commonScan :: "string \<Rightarrow> string \<Rightarrow> nat \<Rightarrow> int \<Rightarrow> nat \<times> int" where
  "commonScan (a # as) (b # bs) i lastCommonSep =
     (if a \<noteq> b then (i, lastCommonSep)
      else commonScan as bs (Suc i) (if a = CHR ''/'' then int i else lastCommonSep))"
| "commonScan as bs i lastCommonSep = (i, lastCommonSep)"

definition upSteps :: "string \<Rightarrow> nat \<Rightarrow> string" where
  "upSteps from start =
     (if start \<le> length from
      then join ''/'' (replicate (Suc (length (filter (\<lambda>c. c = CHR ''/'') (drop start from)))) ''..'')
      else [])"

definition relative :: "string \<Rightarrow> string \<Rightarrow> string \<Rightarrow> string" where
  "relative cwd from0 to0 =
     (if from0 = to0 then []
      else
        (let from = resolve cwd [from0]; to = resolve cwd [to0]
         in if from = to then []
            else
              (let fromLen = length from - 1; toLen = length to - 1;
                   len = min fromLen toLen
               in case commonScan (drop 1 from) (drop 1 to) 0 (- 1) of
                    (i, lastCommonSep) \<Rightarrow>
                      if i = len \<and> toLen > len \<and> to ! (1 + i) = CHR ''/''
                        then drop (1 + i + 1) to
                      else if i = len \<and> toLen > len \<and> i = 0
                        then drop (1 + i) to
                      else
                        (let sep =
                               (if i = len \<and> \<not> toLen > len \<and> fromLen > len
                                then (if from ! (1 + i) = CHR ''/'' then int i
                                      else if i = 0 then 0 else lastCommonSep)
                                else lastCommonSep)
                         in upSteps from (nat (1 + sep + 1)) @ drop (nat (1 + sep)) to))))"

section \<open>Data model\<close>

text \<open>The target kind of \<^verbatim>\<open>MyPackOptions.type\<close>.\<close>

datatype PackType = Lib | App

text \<open>One element of \<^verbatim>\<open>MyPackOptions.files\<close>: \<^verbatim>\<open>{ name, content }\<close>.\<close>

record MemoryFile =
  fileName :: string
  fileContent :: string

text \<open>
  \<^verbatim>\<open>MyPackOptions\<close>. The optional flags that default to false are booleans;
  \<^verbatim>\<open>cleanupFiles\<close> is tested with \<^verbatim>\<open>in\<close>, so its absence is \<open>None\<close>; the field
  \<^verbatim>\<open>output\<close> is \<open>outputPath\<close> here.
\<close>

record MyPackOptions =
  type :: PackType
  entry :: string
  files :: "MemoryFile list"
  sourceMap :: bool
  outputPath :: string
  printModules :: bool
  minify :: bool
  shebang :: bool
  cleanupFiles :: "bool option"

record MyPackResult =
  success :: bool
  hasChange :: "bool option"

text \<open>\<^verbatim>\<open>mapContent\<close> is \<open>None\<close> (undefined) when the file list has no companion map.\<close>

record Source =
  filename :: string
  jsContent :: string
  mapContent :: "string option"

record ModuleRequest =
  index :: nat
  raw :: string
  resolvedFileName :: string
  resolvedModuleName :: string

record Module =
  name :: string
  source :: Source
  requests :: "ModuleRequest list"
  content :: string
  hash :: string

text \<open>
  What is left of a \<^verbatim>\<open>Module\<close> once \<^verbatim>\<open>run\<close> has set \<^verbatim>\<open>content\<close>,
  \<^verbatim>\<open>source.jsContent\<close> and \<^verbatim>\<open>source.mapContent\<close> to null: the value kept in
  \<^verbatim>\<open>lastModules\<close>.
\<close>

record ClearedModule =
  clearedName :: string
  clearedFilename :: string
  clearedRequests :: "ModuleRequest list"
  clearedHash :: string

text \<open>
  One item of \<^verbatim>\<open>SourceMapConsumer.eachMapping\<close>, and of \<^verbatim>\<open>SourceMapGenerator.addMapping\<close>.
  The consumer gives \<^verbatim>\<open>source: null\<close> (\<open>None\<close>) for a segment that maps a generated position
  only; its original line and column are null as well, and are never read here.
\<close>

record Mapping =
  mappingSource :: "string option"
  originalLine :: int
  originalColumn :: int
  generatedLine :: int
  generatedColumn :: int

text \<open>
  \<^verbatim>\<open>EmitHost\<close>. The generator is the list of mappings added so far, \<open>None\<close> when source
  maps are off (\<^verbatim>\<open>generator: null\<close>).
\<close>

record EmitHost =
  sb :: string
  generator :: "Mapping list option"
  lineOffset :: int

text \<open>The errors a run can throw (a rejected promise), as opposed to a failure result.\<close>

datatype Exception = Error string | SyntaxError | TypeError

text \<open>
  The collaborators outside the repository: the working directory of the process, the
  digest \<^verbatim>\<open>sha256(s).toString()\<close>, \<^verbatim>\<open>new SourceMapConsumer(JSON.parse(s))\<close> with the
  mappings in the order \<^verbatim>\<open>eachMapping\<close> visits them (or what it throws on a text
  that does not parse), \<^verbatim>\<open>SourceMapGenerator.toString\<close> for an output file name and
  the added mappings, and terser's \<^verbatim>\<open>minify\<close> of a code text, the input map when
  source maps are on, and the output file name: the code and the map it returns.
\<close>

record Env =
  cwd :: string
  sha256 :: "string \<Rightarrow> string"
  consumeMap :: "string \<Rightarrow> Exception + Mapping list"
  generatorToString :: "string \<Rightarrow> Mapping list \<Rightarrow> string"
  terser :: "string \<Rightarrow> string option \<Rightarrow> string \<Rightarrow> Exception + string \<times> string option"

text \<open>The fields of a \<^verbatim>\<open>MyPacker\<close> instance; \<open>None\<close> is null, or not yet assigned.\<close>

record MyPacker =
  lastHash :: "string option"
  lastModules :: "ClearedModule list option"
  sources :: "Source list option"

section \<open>Source intake\<close>

definition getSources :: "MyPackOptions \<Rightarrow> Source list" where
  "getSources options =
     map (\<lambda>f. \<lparr> filename = fileName f, jsContent = fileContent f,
               mapContent = map_option fileContent
                 (find (\<lambda>g. fileName g = fileName f @ ''.map'') (files options)) \<rparr>)
       (filter (\<lambda>f. endsWith (fileName f) ''.js'') (files options))"

section \<open>Module names\<close>

text \<open>Lines 75 to 78 of \<^verbatim>\<open>processModule\<close>.\<close>

definition moduleNameOf :: "Env \<Rightarrow> string \<Rightarrow> string \<Rightarrow> string" where
  "moduleNameOf E entryName sourceFilename =
     (let n0 = relative (cwd E) (dirname entryName) sourceFilename;
          n1 = (if endsWith n0 ''.js'' then sliceEnd n0 3 else n0);
          n2 = (if endsWith n1 ''index'' then sliceEnd n1 5 else n1)
      in if length n2 = 0 then ''.'' else n2)"

text \<open>Lines 100 to 103: the same for a required file, whose extension is cut unchecked.\<close>

definition requiredModuleNameOf :: "Env \<Rightarrow> string \<Rightarrow> string \<Rightarrow> string" where
  "requiredModuleNameOf E entryName requiredFileName =
     (let n0 = relative (cwd E) (dirname entryName) requiredFileName;
          n1 = sliceEnd n0 3;
          n2 = (if endsWith n1 ''index'' then sliceEnd n1 5 else n1)
      in if length n2 = 0 then ''.'' else n2)"

section \<open>Load calls\<close>

text \<open>
  The pattern \<^verbatim>\<open>/require\("(?<request>\.[\.\w\-\/]*)"\);/g\<close>. The class of the starred
  part does not hold the closing quote, so a match at a position is the keyword and
  opening syntax, a dot, the longest run of class characters, and the closing syntax.
\<close>

definition isWordChar :: "char \<Rightarrow> bool" where
  "isWordChar c =
     (let n = (of_char c :: nat)
      in (97 \<le> n \<and> n \<le> 122) \<or> (65 \<le> n \<and> n \<le> 90) \<or> (48 \<le> n \<and> n \<le> 57) \<or> n = 95)"

definition isRequestChar :: "char \<Rightarrow> bool" where
  "isRequestChar c = (c = CHR ''.'' \<or> isWordChar c \<or> c = CHR ''-'' \<or> c = CHR ''/'')"

definition requireOpen :: string where
  "requireOpen = ''require('' @ [DQ]"

definition callClose :: string where
  "callClose = [DQ] @ '');''"

definition importOpen :: string where
  "importOpen = ''myimport('' @ [DQ]"

text \<open>The match anchored at the start of \<open>s\<close>: the captured group \<^verbatim>\<open>request\<close>.\<close>

definition matchAt :: "string \<Rightarrow> string option" where
  "matchAt s =
     (if startsWith s requireOpen then
        (case drop (length requireOpen) s of
           [] \<Rightarrow> None
         | c # rest \<Rightarrow>
             if c = CHR ''.'' \<and> startsWith (dropWhile isRequestChar rest) callClose
             then Some (c # takeWhile isRequestChar rest)
             else None)
      else None)"

text \<open>The leftmost match in the text \<open>s\<close>, which starts at offset \<open>i\<close> of the content.\<close>

fun searchFrom :: "string \<Rightarrow> nat \<Rightarrow> (nat \<times> string) option" where
  "searchFrom [] i = None"
| "searchFrom (c # cs) i =
     (case matchAt (c # cs) of
        Some request \<Rightarrow> Some (i, request)
      | None \<Rightarrow> searchFrom cs (Suc i))"

text \<open>\<^verbatim>\<open>pattern.exec(content)\<close> with \<^verbatim>\<open>pattern.lastIndex = lastIndex\<close>: the match index and the group.\<close>

definition exec :: "string \<Rightarrow> nat \<Rightarrow> (nat \<times> string) option" where
  "exec str lastIndex =
     (if lastIndex > length str then None else searchFrom (drop lastIndex str) lastIndex)"

text \<open>Lines 89 to 93: the first of the three candidates that is a Source.\<close>

definition requiredFileNameOf :: "Source list \<Rightarrow> string \<Rightarrow> string option" where
  "requiredFileNameOf srcs fullRequest =
     (if list_ex (\<lambda>s. filename s = fullRequest) srcs then Some fullRequest
      else if list_ex (\<lambda>s. filename s = fullRequest @ ''.js'') srcs then Some (fullRequest @ ''.js'')
      else if list_ex (\<lambda>s. filename s = fullRequest @ ''/index.js'') srcs then Some (fullRequest @ ''/index.js'')
      else None)"

text \<open>
  The \<^verbatim>\<open>do ... while (true)\<close> loop of \<^verbatim>\<open>processModule\<close>. A successful
  \<^verbatim>\<open>exec\<close> leaves \<^verbatim>\<open>lastIndex\<close> at the end of the matched text; \<open>None\<close> is the
  \<^verbatim>\<open>return null\<close> of an unresolved request.
\<close>

function scanRequests ::
  "Env \<Rightarrow> MyPackOptions \<Rightarrow> Source list \<Rightarrow> Source \<Rightarrow> nat \<Rightarrow> ModuleRequest list
     \<Rightarrow> ModuleRequest list option" where
  "scanRequests E options srcs src lastIndex reqs =
     (case exec (jsContent src) lastIndex of
        None \<Rightarrow> Some reqs
      | Some (matchIndex, rawText) \<Rightarrow>
          (case requiredFileNameOf srcs (resolve (cwd E) [dirname (filename src), rawText]) of
             None \<Rightarrow> None
           | Some requiredFileName \<Rightarrow>
               if requiredFileName = [] then None
               else scanRequests E options srcs src
                      (matchIndex + length (requireOpen @ rawText @ callClose))
                      (reqs @ [\<lparr> index = matchIndex, raw = rawText,
                                 resolvedFileName = requiredFileName,
                                 resolvedModuleName =
                                   requiredModuleNameOf E (entry options) requiredFileName \<rparr>])))"
  by pat_completeness auto

text \<open>
  A match lies inside the content, at or after \<^verbatim>\<open>lastIndex\<close>, and is the text of a load
  call: the loop ends.
\<close>

lemma matchAt_Some:
  assumes "matchAt s = Some r"
  shows "\<exists>rest. s = requireOpen @ r @ callClose @ rest"
proof -
  from assms have sw: "startsWith s requireOpen"
    by (auto simp: matchAt_def split: if_splits)
  then have s: "s = requireOpen @ drop (length requireOpen) s"
    by (metis append_take_drop_id startsWith_def)
  from assms sw obtain c rest where d: "drop (length requireOpen) s = c # rest"
    and cl: "startsWith (dropWhile isRequestChar rest) callClose"
    and r: "r = c # takeWhile isRequestChar rest"
    by (auto simp: matchAt_def split: if_splits list.splits)
  from cl have "dropWhile isRequestChar rest =
      callClose @ drop (length callClose) (dropWhile isRequestChar rest)"
    by (metis append_take_drop_id startsWith_def)
  then have "rest = takeWhile isRequestChar rest @ callClose
      @ drop (length callClose) (dropWhile isRequestChar rest)"
    by (metis takeWhile_dropWhile_id)
  with s d r show ?thesis
    by (metis append_Cons)
qed

lemma searchFrom_Some:
  "searchFrom s i = Some (j, r) \<Longrightarrow>
     \<exists>pre rest. s = pre @ requireOpen @ r @ callClose @ rest \<and> j = i + length pre"
proof (induction s arbitrary: i)
  case Nil
  then show ?case by simp
next
  case (Cons c cs)
  show ?case
  proof (cases "matchAt (c # cs)")
    case None
    with Cons.prems have "searchFrom cs (Suc i) = Some (j, r)" by simp
    from Cons.IH[OF this] obtain pre rest where
      "cs = pre @ requireOpen @ r @ callClose @ rest" "j = Suc i + length pre" by blast
    then have "c # cs = (c # pre) @ requireOpen @ r @ callClose @ rest \<and> j = i + length (c # pre)"
      by simp
    then show ?thesis by blast
  next
    case (Some r')
    with Cons.prems have "j = i" "r' = r" by simp_all
    with Some matchAt_Some[of "c # cs" r] show ?thesis
      by (metis append_Nil add.right_neutral list.size(3))
  qed
qed

lemma exec_Some:
  assumes "exec str lastIndex = Some (j, r)"
  shows "\<exists>pre rest. drop lastIndex str = pre @ requireOpen @ r @ callClose @ rest
            \<and> j = lastIndex + length pre"
    and "lastIndex \<le> length str"
  using assms searchFrom_Some[of "drop lastIndex str" lastIndex j r]
  by (auto simp: exec_def split: if_splits)

lemma exec_progress:
  assumes "exec str lastIndex = Some (j, r)"
  shows "lastIndex \<le> j \<and> j + length (requireOpen @ r @ callClose) \<le> length str"
proof -
  from exec_Some[OF assms] obtain pre rest where
    d: "drop lastIndex str = pre @ requireOpen @ r @ callClose @ rest"
    and j: "j = lastIndex + length pre"
    and le: "lastIndex \<le> length str" by blast
  from d have "length (drop lastIndex str) = length (pre @ requireOpen @ r @ callClose @ rest)"
    by simp
  with le j show ?thesis by simp
qed

termination scanRequests
  apply (relation "measure (\<lambda>(E, options, srcs, src, lastIndex, reqs).
                     Suc (length (jsContent src)) - lastIndex)")
   apply simp
  apply (auto dest!: exec_progress simp: requireOpen_def callClose_def)
  done

declare scanRequests.simps [simp del]

text \<open>The \<^verbatim>\<open>for ... of requests\<close> loop and the final slice, lines 108 to 115.\<close>

fun rewriteRequests :: "string \<Rightarrow> ModuleRequest list \<Rightarrow> nat \<Rightarrow> string \<Rightarrow> string" where
  "rewriteRequests js [] previousEndIndex moduleContent =
     moduleContent @ sliceFrom js previousEndIndex"
| "rewriteRequests js (r # rs) previousEndIndex moduleContent =
     rewriteRequests js rs (index r + length (raw r) + 12)
       (moduleContent @ slice js previousEndIndex (index r)
          @ importOpen @ resolvedModuleName r @ callClose)"

definition processModule :: "Env \<Rightarrow> MyPackOptions \<Rightarrow> Source list \<Rightarrow> Source \<Rightarrow> Module option" where
  "processModule E options srcs src =
     (let moduleName = moduleNameOf E (entry options) (filename src)
      in case scanRequests E options srcs src 0 [] of
           None \<Rightarrow> None
         | Some reqs \<Rightarrow>
             (let moduleContent = rewriteRequests (jsContent src) reqs 0 []
              in Some \<lparr> name = moduleName, source = src, requests = reqs,
                        content = moduleContent, hash = sha256 E moduleContent \<rparr>))"

text \<open>Every request of a Module names a Source: the queue of the graph builder is bounded.\<close>

lemma requiredFileNameOf_Some:
  "requiredFileNameOf srcs x = Some f \<Longrightarrow> f \<in> filename ` set srcs"
  by (auto simp: requiredFileNameOf_def list_ex_iff split: if_splits intro: rev_image_eqI)

lemma scanRequests_resolved:
  "scanRequests E options srcs src lastIndex reqs = Some res \<Longrightarrow>
   \<forall>r \<in> set reqs. resolvedFileName r \<in> filename ` set srcs \<Longrightarrow>
   \<forall>r \<in> set res. resolvedFileName r \<in> filename ` set srcs"
proof (induction E options srcs src lastIndex reqs rule: scanRequests.induct)
  case (1 E options srcs src lastIndex reqs)
  show ?case
  proof (cases "exec (jsContent src) lastIndex")
    case None
    with "1.prems" show ?thesis by (simp add: scanRequests.simps[of E options srcs src lastIndex reqs])
  next
    case (Some p)
    obtain j rawText where p: "p = (j, rawText)" by (cases p)
    from "1.prems"(1) Some p obtain f where
      f: "requiredFileNameOf srcs (resolve (cwd E) [dirname (filename src), rawText]) = Some f"
      and ne: "f \<noteq> []"
      and rec: "scanRequests E options srcs src (j + length (requireOpen @ rawText @ callClose))
          (reqs @ [\<lparr> index = j, raw = rawText, resolvedFileName = f,
                      resolvedModuleName = requiredModuleNameOf E (entry options) f \<rparr>]) = Some res"
      by (auto simp: scanRequests.simps[of E options srcs src lastIndex reqs] split: option.splits if_splits)
    from f have "f \<in> filename ` set srcs"
      by (rule requiredFileNameOf_Some)
    with "1.prems"(2) have "\<forall>r \<in> set (reqs @ [\<lparr> index = j, raw = rawText, resolvedFileName = f,
                      resolvedModuleName = requiredModuleNameOf E (entry options) f \<rparr>]). resolvedFileName r \<in> filename ` set srcs"
      by auto
    from "1.IH"[OF Some p[symmetric] f ne rec this] show ?thesis .
  qed
qed

lemma processModule_resolved:
  "processModule E options srcs src = Some m \<Longrightarrow>
   resolvedFileName ` set (requests m) \<subseteq> filename ` set srcs"
  using scanRequests_resolved[of E options srcs src 0 "[]"]
  by (auto simp: processModule_def Let_def split: option.splits)

section \<open>The module graph\<close>

text \<open>
  The loop of \<^verbatim>\<open>run\<close> over \<^verbatim>\<open>requiredFileNames\<close>, lines 232 to 239.
  \<^verbatim>\<open>processModule(undefined)\<close> throws a TypeError at \<^verbatim>\<open>source.filename\<close>; \<open>Inr None\<close>
  is the early \<^verbatim>\<open>return { success: false }\<close>. The new file names are filtered against
  the queue as it is before the push.
\<close>

function buildModules ::
  "Env \<Rightarrow> MyPackOptions \<Rightarrow> Source list \<Rightarrow> string list \<Rightarrow> nat \<Rightarrow> Module list
     \<Rightarrow> Exception + Module list option" where
  "buildModules E options srcs requiredFileNames moduleIndex modules =
     (if moduleIndex < length requiredFileNames then
        (case find (\<lambda>s. filename s = requiredFileNames ! moduleIndex) srcs of
           None \<Rightarrow> Inl TypeError
         | Some src \<Rightarrow>
             (case processModule E options srcs src of
                None \<Rightarrow> Inr None
              | Some m \<Rightarrow>
                  buildModules E options srcs
                    (requiredFileNames
                       @ filter (\<lambda>f. f \<notin> set requiredFileNames)
                           (map resolvedFileName (requests m)))
                    (Suc moduleIndex) (modules @ [m])))
      else Inr (Some modules))"
  by pat_completeness auto

lemma queue_measure:
  assumes "set new \<subseteq> S" "set new \<inter> set q = {}" "finite S" "i < length q"
  shows "card (S - set (q @ new)) < card (S - set q)
       \<or> (card (S - set (q @ new)) = card (S - set q) \<and> length (q @ new) - Suc i < length q - i)"
proof (cases new)
  case Nil
  with assms show ?thesis by simp
next
  case (Cons x xs)
  with assms have "x \<in> S - set q" "x \<notin> S - set (q @ new)" by auto
  moreover have "S - set (q @ new) \<subseteq> S - set q" by auto
  ultimately have "S - set (q @ new) \<subset> S - set q" by blast
  with assms(3) show ?thesis by (simp add: psubset_card_mono)
qed

termination buildModules
proof (relation "measures [\<lambda>(E, options, srcs, q, i, ms). card (filename ` set srcs - set q),
                           \<lambda>(E, options, srcs, q, i, ms). length q - i]", goal_cases)
  case 1
  show ?case by simp
next
  case (2 E options srcs q i ms src m)
  let ?new = "filter (\<lambda>f. f \<notin> set q) (map resolvedFileName (requests m))"
  from processModule_resolved[OF 2(3)] have "set ?new \<subseteq> filename ` set srcs" by auto
  moreover have "set ?new \<inter> set q = {}" by auto
  ultimately show ?case
    using queue_measure[of ?new "filename ` set srcs" q i] 2(1) by auto
qed

declare buildModules.simps [simp del]

section \<open>Circular references\<close>

text \<open>
  The inner function \<^verbatim>\<open>load\<close> of \<^verbatim>\<open>checkCircularReference\<close> and its loop over the
  requests. \<^verbatim>\<open>loadings\<close> is pushed on entry and popped on return, so the loop sees the
  stack of its own call; a throw leaves the function. A request whose module name no
  Module has makes \<^verbatim>\<open>requestedModule.name\<close> throw a TypeError.
\<close>

function load :: "Module list \<Rightarrow> Module list \<Rightarrow> Module \<Rightarrow> Exception + unit"
  and loadRequests :: "Module list \<Rightarrow> Module list \<Rightarrow> ModuleRequest list \<Rightarrow> Exception + unit" where
  "load modules loadings m = loadRequests modules (loadings @ [m]) (requests m)"
| "loadRequests modules loadings [] = Inr ()"
| "loadRequests modules loadings (request # rest) =
     (case find (\<lambda>m. name m = resolvedModuleName request) modules of
        None \<Rightarrow> Inl TypeError
      | Some requestedModule \<Rightarrow>
          if list_ex (\<lambda>o'. name o' = name requestedModule) loadings
          then Inl (Error ''circular reference'')
          else (case load modules loadings requestedModule of
                  Inl ex \<Rightarrow> Inl ex
                | Inr u \<Rightarrow> loadRequests modules loadings rest))"
  by pat_completeness auto

lemma find_Some_name:
  "find (\<lambda>m. name m = n) modules = Some rm \<Longrightarrow> name rm \<in> name ` set modules"
  by (auto simp: find_Some_iff)

lemma load_measure:
  assumes "n \<in> N" "n \<notin> L" "finite N"
  shows "card (N - insert n L) < card (N - L)"
proof -
  from assms have "N - insert n L \<subset> N - L" by blast
  with assms(3) show ?thesis by (simp add: psubset_card_mono)
qed

termination load
proof (relation "inv_image (less_than <*lex*> less_than <*lex*> less_than)
    (\<lambda>x. case x of
       Inl (modules, loadings, m) \<Rightarrow>
         (card (name ` set modules - name ` set (loadings @ [m])), 1::nat, 0::nat)
     | Inr (modules, loadings, rs) \<Rightarrow>
         (card (name ` set modules - name ` set loadings), 0, length rs))", goal_cases)
  case 1
  show ?case by (intro wf_inv_image wf_lex_prod wf_less_than)
next
  case (2 modules loadings m)
  show ?case by simp
next
  case (3 modules loadings request rest rm)
  from 3(1) have "name rm \<in> name ` set modules" by (rule find_Some_name)
  moreover from 3(2) have "name rm \<notin> name ` set loadings" by (auto simp: list_ex_iff)
  ultimately have "card (name ` set modules - insert (name rm) (name ` set loadings))
      < card (name ` set modules - name ` set loadings)"
    by (intro load_measure) auto
  then show ?case by simp
next
  case (4 modules loadings request rest rm)
  show ?case by simp
qed


definition checkCircularReference :: "Module list \<Rightarrow> Exception + bool" where
  "checkCircularReference modules =
     (case modules of
        [] \<Rightarrow> Inl TypeError
      | m0 # ms \<Rightarrow>
          (case load modules [] m0 of
             Inr u \<Rightarrow> Inr False
           | Inl ex \<Rightarrow> if ex = Error ''circular reference'' then Inr True else Inl ex))"

section \<open>Emission\<close>

definition loaderText :: string where
  "loaderText = ''(function myrequire(modulename) { if (!(modulename in mycache)) { mycache[modulename] = {}; modules[modulename](mycache[modulename], myrequire); } return mycache[modulename]; })(''"

definition emitRuntimePrefix :: "MyPackOptions \<Rightarrow> EmitHost \<Rightarrow> string \<Rightarrow> EmitHost" where
  "emitRuntimePrefix options host entryModuleName =
     (let host1 = (if shebang options
                   then host \<lparr> sb := sb host @ ''#!/usr/bin/env node'' @ [NL],
                               lineOffset := lineOffset host + 1 \<rparr>
                   else host);
          host2 = host1 \<lparr> sb := sb host1 @
                    (if type options = App
                     then ''((modules) => { const mycache = {};'' @ [NL]
                            @ loaderText @ [SQ] @ entryModuleName @ [SQ] @ ''); })({'' @ [NL]
                     else ''module.exports = ((modules) => { const mycache = {};'' @ [NL]
                            @ ''return '' @ loaderText @ [SQ] @ entryModuleName @ [SQ]
                            @ ''); })({'' @ [NL]) \<rparr>
      in host2 \<lparr> lineOffset := lineOffset host2 + 2 \<rparr>)"

text \<open>
  \<^verbatim>\<open>SourceMapGenerator.addMapping\<close> of the source-map library, for a mapping with a
  source and an original position: it validates the mapping and throws an Error
  (\<^verbatim>\<open>Invalid mapping: ...\<close>, the message abridged here) unless the generated line and the
  original line are positive and both columns are not negative.
\<close>

definition validMapping :: "Mapping \<Rightarrow> bool" where
  "validMapping mapping =
     (generatedLine mapping > 0 \<and> generatedColumn mapping \<ge> 0
      \<and> originalLine mapping > 0 \<and> originalColumn mapping \<ge> 0)"

definition addMapping :: "Mapping list \<Rightarrow> Mapping \<Rightarrow> Exception + Mapping list" where
  "addMapping gen mapping =
     (if validMapping mapping then Inr (gen @ [mapping]) else Inl (Error ''Invalid mapping''))"

text \<open>
  The callback of \<^verbatim>\<open>eachMapping\<close>, over the mappings in turn: \<^verbatim>\<open>firstMappingLine\<close> is
  null (\<open>None\<close>) until the first one, \<open>offset\<close> is \<^verbatim>\<open>host.lineOffset\<close> and \<open>gen\<close>
  the mappings of \<^verbatim>\<open>host.generator\<close>. \<^verbatim>\<open>path.resolve(mapping.source)\<close> throws a TypeError
  for a null source, before \<^verbatim>\<open>addMapping\<close> is called; a throw ends the iteration.
\<close>

fun eachMapping ::
  "Env \<Rightarrow> int \<Rightarrow> Mapping list \<Rightarrow> int option \<Rightarrow> Mapping list \<Rightarrow> Exception + Mapping list" where
  "eachMapping E offset [] firstMappingLine gen = Inr gen"
| "eachMapping E offset (mapping # rest) firstMappingLine gen =
     (let first = (case firstMappingLine of None \<Rightarrow> generatedLine mapping | Some l \<Rightarrow> l)
      in case mappingSource mapping of
           None \<Rightarrow> Inl TypeError
         | Some src \<Rightarrow>
             (case addMapping gen
                     \<lparr> mappingSource = Some (resolve (cwd E) [src]),
                       originalLine = originalLine mapping,
                       originalColumn = originalColumn mapping,
                       generatedLine = generatedLine mapping - first + offset + 1,
                       generatedColumn = generatedColumn mapping \<rparr> of
                Inl ex \<Rightarrow> Inl ex
              | Inr gen1 \<Rightarrow> eachMapping E offset rest (Some first) gen1))"

text \<open>
  \<^verbatim>\<open>emitModule\<close>. With a generator, \<^verbatim>\<open>JSON.parse\<close> of an undefined \<^verbatim>\<open>mapContent\<close>
  throws a SyntaxError, and a throw of the callback leaves the function.
\<close>

definition emitModule :: "Env \<Rightarrow> EmitHost \<Rightarrow> Module \<Rightarrow> Exception + EmitHost" where
  "emitModule E host m =
     (let host1 = host \<lparr> sb := sb host @ [SQ] @ name m @ [SQ] @ '': (exports, myimport) => {''
                                  @ [NL] @ content m @ ''}, '',
                          lineOffset := lineOffset host + 1 \<rparr>
      in case generator host1 of
           None \<Rightarrow> Inr host1
         | Some gen \<Rightarrow>
             (case mapContent (source m) of
                None \<Rightarrow> Inl SyntaxError
              | Some text \<Rightarrow>
                  (case consumeMap E text of
                     Inl ex \<Rightarrow> Inl ex
                   | Inr mappings \<Rightarrow>
                       (case eachMapping E (lineOffset host1) mappings None gen of
                          Inl ex \<Rightarrow> Inl ex
                        | Inr gen1 \<Rightarrow>
                            Inr (host1 \<lparr> generator := Some gen1,
                                         lineOffset := lineOffset host1
                                           + (int (length (split NL (content m))) - 1) \<rparr>)))))"

text \<open>The loop \<^verbatim>\<open>for (const $module of modules) { await this.emitModule(emitHost, $module); }\<close>\<close>

fun emitModules :: "Env \<Rightarrow> EmitHost \<Rightarrow> Module list \<Rightarrow> Exception + EmitHost" where
  "emitModules E host [] = Inr host"
| "emitModules E host (m # ms) =
     (case emitModule E host m of
        Inl ex \<Rightarrow> Inl ex
      | Inr host1 \<Rightarrow> emitModules E host1 ms)"

definition emitRuntimePostfix :: "EmitHost \<Rightarrow> EmitHost" where
  "emitRuntimePostfix host = host \<lparr> sb := sb host @ ''})'' @ [NL] \<rparr>"

section \<open>Cleanup of the file list\<close>

text \<open>
  \<^verbatim>\<open>files.splice(files.indexOf(unusedFile), 1)\<close>: the first occurrence is removed; an
  index of -1 would remove the last element.
\<close>

definition spliceOut :: "MemoryFile list \<Rightarrow> MemoryFile \<Rightarrow> MemoryFile list" where
  "spliceOut fs unusedFile = (if unusedFile \<in> set fs then remove1 unusedFile fs else butlast fs)"

definition isUnusedFile :: "Module list \<Rightarrow> MemoryFile \<Rightarrow> bool" where
  "isUnusedFile modules f =
     (\<not> list_ex (\<lambda>m. filename (source m) = fileName f) modules
      \<and> \<not> list_ex (\<lambda>m. filename (source m) @ ''.map'' = fileName f) modules)"

definition cleanupMemoryFile :: "Module list \<Rightarrow> MemoryFile list \<Rightarrow> MemoryFile list" where
  "cleanupMemoryFile modules fs = foldl spliceOut fs (filter (isUnusedFile modules) fs)"

section \<open>The run\<close>

text \<open>
  What a run that returns leaves behind: its result, the fields of the instance, the
  caller's file list, and the files written, in order, as path and data. Log lines
  (\<^verbatim>\<open>logInfo\<close>, \<^verbatim>\<open>logError\<close>, \<^verbatim>\<open>printResult\<close>) are not modelled.
\<close>

record RunOutcome =
  result :: MyPackResult
  packer :: MyPacker
  filesAfter :: "MemoryFile list"
  written :: "(string \<times> string) list"

definition clearModule :: "Module \<Rightarrow> ClearedModule" where
  "clearModule m = \<lparr> clearedName = name m, clearedFilename = filename (source m),
                      clearedRequests = requests m, clearedHash = hash m \<rparr>"

definition failure :: "MyPackOptions \<Rightarrow> MyPacker \<Rightarrow> RunOutcome" where
  "failure options this =
     \<lparr> result = \<lparr> success = False, hasChange = None \<rparr>, packer = this,
       filesAfter = files options, written = [] \<rparr>"

text \<open>Lines 245 to 267: the bundle text and the text of the merged map, if any.\<close>

definition emitBundle ::
  "Env \<Rightarrow> MyPackOptions \<Rightarrow> Module list \<Rightarrow> Exception + string \<times> string option" where
  "emitBundle E options modules =
     (case modules of
        [] \<Rightarrow> Inl TypeError
      | m0 # ms \<Rightarrow>
          (let emitHost = \<lparr> sb = [], generator = (if \<not> sourceMap options then None else Some []),
                             lineOffset = 0 \<rparr>
           in case emitModules E (emitRuntimePrefix options emitHost (name m0)) modules of
                Inl ex \<Rightarrow> Inl ex
              | Inr host \<Rightarrow>
                  (let resultJs = sb (emitRuntimePostfix host);
                       resultMap = map_option (generatorToString E (outputPath options))
                                     (generator host)
                   in if minify options
                      then terser E resultJs (if \<not> sourceMap options then None else resultMap)
                             (outputPath options)
                      else Inr (resultJs, resultMap))))"

text \<open>
  Lines 269 to 296, after the bundle text is there. \<^verbatim>\<open>writeFile\<close> of an undefined map
  text throws; that throw is the only one here, and the model does not keep what was
  assigned and written before it.
\<close>

definition finishRun ::
  "Env \<Rightarrow> MyPackOptions \<Rightarrow> MyPacker \<Rightarrow> Module list \<Rightarrow> string \<Rightarrow> string option
     \<Rightarrow> Exception + RunOutcome" where
  "finishRun E options this modules resultJs resultMap =
     (let h = sha256 E resultJs;
          changed = (Some h \<noteq> lastHash this);
          fs = (if cleanupFiles options = None \<or> cleanupFiles options = Some True
                then cleanupMemoryFile modules (files options) else files options);
          this1 = this \<lparr> lastHash := Some h, lastModules := Some (map clearModule modules) \<rparr>;
          res = \<lparr> success = True, hasChange = Some changed \<rparr>
      in if sourceMap options
         then (case resultMap of
                 None \<Rightarrow> Inl TypeError
               | Some mapText \<Rightarrow>
                   Inr \<lparr> result = res, packer = this1, filesAfter = fs,
                         written = [(outputPath options, resultJs),
                                    (outputPath options @ ''.map'', mapText)] \<rparr>)
         else Inr \<lparr> result = res, packer = this1, filesAfter = fs,
                    written = [(outputPath options, resultJs)] \<rparr>)"

definition run :: "Env \<Rightarrow> MyPackOptions \<Rightarrow> MyPacker \<Rightarrow> Exception + RunOutcome" where
  "run E options this =
     (let srcs = getSources options;
          this1 = this \<lparr> sources := Some srcs \<rparr>
      in if \<not> list_ex (\<lambda>s. filename s = entry options) srcs
         then Inr (failure options this1)
         else
           (case buildModules E options srcs [entry options] 0 [] of
              Inl ex \<Rightarrow> Inl ex
            | Inr None \<Rightarrow> Inr (failure options this1)
            | Inr (Some modules) \<Rightarrow>
                (case checkCircularReference modules of
                   Inl ex \<Rightarrow> Inl ex
                 | Inr True \<Rightarrow> Inr (failure options this1)
                 | Inr False \<Rightarrow>
                     (case emitBundle E options modules of
                        Inl ex \<Rightarrow> Inl ex
                      | Inr (resultJs, resultMap) \<Rightarrow>
                          finishRun E options this1 modules resultJs resultMap))))"

section \<open>Concrete collaborators and inputs\<close>

text \<open>
  A host for the evaluations below: the working directory is the root, the digest is the
  identity, every map text holds no mapping, and the minifier returns its input.
\<close>

definition env0 :: Env where
  "env0 = \<lparr> cwd = ''/'', sha256 = (\<lambda>s. s), consumeMap = (\<lambda>s. Inr []),
            generatorToString = (\<lambda>f ms. []), terser = (\<lambda>c m outp. Inr (c, m)) \<rparr>"

definition packer0 :: MyPacker where
  "packer0 = \<lparr> lastHash = None, lastModules = None, sources = None \<rparr>"

definition options0 :: "string \<Rightarrow> MemoryFile list \<Rightarrow> MyPackOptions" where
  "options0 e fs = \<lparr> type = App, entry = e, files = fs, sourceMap = False,
     outputPath = ''/out.js'', printModules = False, minify = False, shebang = False,
     cleanupFiles = None \<rparr>"

section \<open>Vocabulary of the statements\<close>

text \<open>
  The text of a load call and of the import call that replaces it, a content cut into the
  gaps between calls, the calls and the rest after the last one, and the requests lying
  in a content one after the other, each on the text of its load call.
\<close>

fun interleave :: "string list \<Rightarrow> string list \<Rightarrow> string \<Rightarrow> string" where
  "interleave (g # gs) (c # cs) rest = g @ c @ interleave gs cs rest"
| "interleave gs cs rest = rest"

definition loadCall :: "ModuleRequest \<Rightarrow> string" where
  "loadCall r = requireOpen @ raw r @ callClose"

definition importCall :: "ModuleRequest \<Rightarrow> string" where
  "importCall r = importOpen @ resolvedModuleName r @ callClose"

fun wellPlaced :: "string \<Rightarrow> nat \<Rightarrow> ModuleRequest list \<Rightarrow> bool" where
  "wellPlaced js p [] = True"
| "wellPlaced js p (r # rs) =
     (p \<le> index r \<and> index r + length (raw r) + 12 \<le> length js
      \<and> slice js (index r) (index r + length (raw r) + 12) = loadCall r
      \<and> wellPlaced js (index r + length (raw r) + 12) rs)"


text \<open>The scenario of an entry \<^verbatim>\<open>/e.js\<close> that requires \<^verbatim>\<open>./a.js\<close>.\<close>

definition files2 :: "MemoryFile list" where
  "files2 =
     [\<lparr> fileName = ''/e.js'',
         fileContent = ''var x = require('' @ [DQ] @ ''./a.js'' @ [DQ] @ ''); x();'' \<rparr>,
      \<lparr> fileName = ''/a.js'', fileContent = ''module.exports = () => 1;'' \<rparr>]"

definition entrySource2 :: Source where
  "entrySource2 = \<lparr> filename = ''/e.js'',
      jsContent = ''var x = require('' @ [DQ] @ ''./a.js'' @ [DQ] @ ''); x();'',
      mapContent = None \<rparr>"

definition entryModule2 :: Module where
  "entryModule2 = \<lparr> name = ''e'', source = entrySource2,
      requests = [\<lparr> index = 8, raw = ''./a.js'', resolvedFileName = ''/a.js'',
                     resolvedModuleName = ''a'' \<rparr>],
      content = ''var x = myimport('' @ [DQ] @ ''a'' @ [DQ] @ ''); x();'',
      hash = ''var x = myimport('' @ [DQ] @ ''a'' @ [DQ] @ ''); x();'' \<rparr>"

text \<open>
  A mapping as the merged map holds it: the source path resolved, the generated line
  moved from the anchor of its own map by a shift, the rest as it was. A mapping is
  accepted when it has a source and the generator takes it in that form.
\<close>

definition reanchor :: "Env \<Rightarrow> int \<Rightarrow> int \<Rightarrow> Mapping \<Rightarrow> Mapping" where
  "reanchor E anchor shift mapping =
     \<lparr> mappingSource = map_option (\<lambda>src. resolve (cwd E) [src]) (mappingSource mapping),
       originalLine = originalLine mapping,
       originalColumn = originalColumn mapping,
       generatedLine = generatedLine mapping - anchor + shift,
       generatedColumn = generatedColumn mapping \<rparr>"

definition accepted :: "Env \<Rightarrow> int \<Rightarrow> int \<Rightarrow> Mapping \<Rightarrow> bool" where
  "accepted E anchor shift mapping =
     (mappingSource mapping \<noteq> None \<and> validMapping (reanchor E anchor shift mapping))"

text \<open>The generated line of the first mapping of a map.\<close>

definition localAnchor :: "Mapping list \<Rightarrow> int" where
  "localAnchor mappings = (case mappings of [] \<Rightarrow> 0 | first # rest \<Rightarrow> generatedLine first)"

text \<open>
  One module with a map of three mappings, on the generated lines 3, 3 and 5 of its own
  file, and the host after the prefix of an app bundle without shebang: two lines are
  emitted before the module. A second map has a mapping without source.
\<close>

definition mapText6 :: string where "mapText6 = ''{}''"

definition mappings6 :: "Mapping list" where
  "mappings6 =
     [\<lparr> mappingSource = Some ''/e.ts'', originalLine = 1, originalColumn = 0,
         generatedLine = 3, generatedColumn = 0 \<rparr>,
      \<lparr> mappingSource = Some ''/e.ts'', originalLine = 1, originalColumn = 4,
         generatedLine = 3, generatedColumn = 7 \<rparr>,
      \<lparr> mappingSource = Some ''/e.ts'', originalLine = 2, originalColumn = 0,
         generatedLine = 5, generatedColumn = 2 \<rparr>]"

definition env6 :: Env where
  "env6 = env0 \<lparr> consumeMap := (\<lambda>s. Inr mappings6) \<rparr>"

definition sourcelessMappings6 :: "Mapping list" where
  "sourcelessMappings6 =
     [\<lparr> mappingSource = Some ''/e.ts'', originalLine = 1, originalColumn = 0,
         generatedLine = 3, generatedColumn = 0 \<rparr>,
      \<lparr> mappingSource = None, originalLine = 0, originalColumn = 0,
         generatedLine = 3, generatedColumn = 9 \<rparr>]"

definition sourcelessEnv6 :: Env where
  "sourcelessEnv6 = env0 \<lparr> consumeMap := (\<lambda>s. Inr sourcelessMappings6) \<rparr>"

definition module6 :: Module where
  "module6 = \<lparr> name = ''e'',
      source = \<lparr> filename = ''/e.js'', jsContent = ''x();'', mapContent = Some mapText6 \<rparr>,
      requests = [], content = ''x();'', hash = ''x();'' \<rparr>"

definition host6 :: EmitHost where
  "host6 = emitRuntimePrefix ((options0 ''/e.js'' []) \<lparr> sourceMap := True \<rparr>)
             \<lparr> sb = [], generator = Some [], lineOffset = 0 \<rparr> ''e''"

text \<open>
  The generated lines and the generated columns of the merged map after a call of
  \<^verbatim>\<open>emitModule\<close>.
\<close>

definition generatedLinesOf :: "Exception + EmitHost \<Rightarrow> int list option" where
  "generatedLinesOf r =
     (case r of Inl ex \<Rightarrow> None | Inr host \<Rightarrow> map_option (map generatedLine) (generator host))"

definition generatedColumnsOf :: "Exception + EmitHost \<Rightarrow> int list option" where
  "generatedColumnsOf r =
     (case r of Inl ex \<Rightarrow> None | Inr host \<Rightarrow> map_option (map generatedColumn) (generator host))"

text \<open>
  The load calls the loop of \<^verbatim>\<open>processModule\<close> detects in a content, from
  \<^verbatim>\<open>lastIndex\<close> on: the loop without the resolution, as index and captured path.
\<close>

function allMatches :: "string \<Rightarrow> nat \<Rightarrow> (nat \<times> string) list" where
  "allMatches str lastIndex =
     (case exec str lastIndex of
        None \<Rightarrow> []
      | Some (matchIndex, rawText) \<Rightarrow>
          (matchIndex, rawText)
            # allMatches str (matchIndex + length (requireOpen @ rawText @ callClose)))"
  by pat_completeness auto
termination
  apply (relation "measure (\<lambda>(str, lastIndex). Suc (length str) - lastIndex)")
   apply simp
  apply (auto dest!: exec_progress simp: requireOpen_def callClose_def)
  done

declare allMatches.simps [simp del]

text \<open>
  The three file names tried for a captured path, in the order of lines 90 to 92, and the
  test \<^verbatim>\<open>this.sources.some(s => s.filename == f)\<close>.
\<close>

definition candidates :: "Env \<Rightarrow> Source \<Rightarrow> string \<Rightarrow> string list" where
  "candidates E src rawText =
     (let fullRequest = resolve (cwd E) [dirname (filename src), rawText]
      in [fullRequest, fullRequest @ ''.js'', fullRequest @ ''/index.js''])"

definition isSource :: "Source list \<Rightarrow> string \<Rightarrow> bool" where
  "isSource srcs f = list_ex (\<lambda>s. filename s = f) srcs"

text \<open>
  The file names the graph builder comes to: the entry, and every file a request of a
  Module built from such a file resolves to.
\<close>

inductive_set reached :: "Env \<Rightarrow> MyPackOptions \<Rightarrow> Source list \<Rightarrow> string set"
  for E :: Env and options :: MyPackOptions and srcs :: "Source list" where
  entry: "entry options \<in> reached E options srcs"
| request: "f \<in> reached E options srcs \<Longrightarrow> find (\<lambda>s. filename s = f) srcs = Some src \<Longrightarrow>
     processModule E options srcs src = Some m \<Longrightarrow> r \<in> set (requests m) \<Longrightarrow>
     resolvedFileName r \<in> reached E options srcs"

text \<open>
  The invariant of the loop of the graph builder: the Modules built are those of the first
  \<open>i\<close> file names of the queue, and the queue holds the files they request.
\<close>

definition queueInv :: "string list \<Rightarrow> nat \<Rightarrow> Module list \<Rightarrow> bool" where
  "queueInv q i mods =
     (i \<le> length q \<and> map (\<lambda>m. filename (source m)) mods = take i q
      \<and> (\<forall>m \<in> set mods. resolvedFileName ` set (requests m) \<subseteq> set q))"

text \<open>The scenario of an entry that requires \<^verbatim>\<open>./missing.js\<close>, which no Source is.\<close>

definition files4 :: "MemoryFile list" where
  "files4 = [\<lparr> fileName = ''/e.js'',
               fileContent = ''require('' @ [DQ] @ ''./missing.js'' @ [DQ] @ '');'' \<rparr>]"

definition entrySource4 :: Source where
  "entrySource4 = \<lparr> filename = ''/e.js'',
      jsContent = ''require('' @ [DQ] @ ''./missing.js'' @ [DQ] @ '');'', mapContent = None \<rparr>"

text \<open>
  The graph of the Modules: \<open>m\<close> requests \<open>m'\<close> when \<^verbatim>\<open>modules.find\<close> gives \<open>m'\<close> for the
  resolved module name of a request of \<open>m\<close>. A loading chain is a list of Modules in
  which each requests the next: the stack \<^verbatim>\<open>loadings\<close> while its last Module is loaded. A
  graph is well formed when every resolved module name is the name of one of its Modules.
\<close>

definition requestsModule :: "Module list \<Rightarrow> Module \<Rightarrow> Module \<Rightarrow> bool" where
  "requestsModule modules m m' =
     list_ex (\<lambda>r. find (\<lambda>x. name x = resolvedModuleName r) modules = Some m') (requests m)"

fun loadingChain :: "Module list \<Rightarrow> Module list \<Rightarrow> bool" where
  "loadingChain modules (a # b # rest) =
     (requestsModule modules a b \<and> loadingChain modules (b # rest))"
| "loadingChain modules rest = True"

definition wellFormed :: "Module list \<Rightarrow> bool" where
  "wellFormed modules =
     list_all (\<lambda>m. list_all (\<lambda>r. list_ex (\<lambda>x. name x = resolvedModuleName r) modules)
                     (requests m)) modules"

text \<open>The scenario of an entry \<^verbatim>\<open>/e.js\<close> and a file \<^verbatim>\<open>/a.js\<close> that require each other.\<close>

definition files5 :: "MemoryFile list" where
  "files5 =
     [\<lparr> fileName = ''/e.js'', fileContent = ''require('' @ [DQ] @ ''./a'' @ [DQ] @ '');'' \<rparr>,
      \<lparr> fileName = ''/a.js'', fileContent = ''require('' @ [DQ] @ ''./e'' @ [DQ] @ '');'' \<rparr>]"

definition entryModule5 :: Module where
  "entryModule5 = \<lparr> name = ''e'',
      source = \<lparr> filename = ''/e.js'',
                 jsContent = ''require('' @ [DQ] @ ''./a'' @ [DQ] @ '');'', mapContent = None \<rparr>,
      requests = [\<lparr> index = 0, raw = ''./a'', resolvedFileName = ''/a.js'',
                     resolvedModuleName = ''a'' \<rparr>],
      content = ''myimport('' @ [DQ] @ ''a'' @ [DQ] @ '');'',
      hash = ''myimport('' @ [DQ] @ ''a'' @ [DQ] @ '');'' \<rparr>"

definition otherModule5 :: Module where
  "otherModule5 = \<lparr> name = ''a'',
      source = \<lparr> filename = ''/a.js'',
                 jsContent = ''require('' @ [DQ] @ ''./e'' @ [DQ] @ '');'', mapContent = None \<rparr>,
      requests = [\<lparr> index = 0, raw = ''./e'', resolvedFileName = ''/e.js'',
                     resolvedModuleName = ''e'' \<rparr>],
      content = ''myimport('' @ [DQ] @ ''e'' @ [DQ] @ '');'',
      hash = ''myimport('' @ [DQ] @ ''e'' @ [DQ] @ '');'' \<rparr>"

text \<open>
  The names of the Modules of a graph that was built, the file each Module is built from
  with the files its requests resolve to, and whether a run succeeded.
\<close>

definition builtRequestFiles ::
  "Exception + Module list option \<Rightarrow> (string \<times> string list) list option" where
  "builtRequestFiles r =
     (case r of
        Inr (Some modules) \<Rightarrow>
          Some (map (\<lambda>m. (filename (source m), map resolvedFileName (requests m))) modules)
      | _ \<Rightarrow> None)"

text \<open>
  Two file lists with a cycle of requires: one where \<^verbatim>\<open>/a.js\<close> and \<^verbatim>\<open>/aindex.js\<close> get
  the same name, and one where the entry lies below a path that is a Source.
\<close>

definition filesHidden5 :: "MemoryFile list" where
  "filesHidden5 =
     [\<lparr> fileName = ''/e.js'',
         fileContent = ''require('' @ [DQ] @ ''./a'' @ [DQ] @ '');require('' @ [DQ] @ ''./aindex''
                         @ [DQ] @ '');'' \<rparr>,
      \<lparr> fileName = ''/a.js'', fileContent = ''exports.x = 1;'' \<rparr>,
      \<lparr> fileName = ''/aindex.js'', fileContent = ''require('' @ [DQ] @ ''./e'' @ [DQ] @ '');'' \<rparr>]"

definition filesUnnamed5 :: "MemoryFile list" where
  "filesUnnamed5 =
     [\<lparr> fileName = ''/a.js/b/e.js'',
         fileContent = ''require('' @ [DQ] @ ''../../a.js'' @ [DQ] @ '');'' \<rparr>,
      \<lparr> fileName = ''/a.js'',
         fileContent = ''require('' @ [DQ] @ ''./a.js/b/e.js'' @ [DQ] @ '');'' \<rparr>]"

definition builtNames :: "Exception + Module list option \<Rightarrow> string list option" where
  "builtNames r = (case r of Inr (Some modules) \<Rightarrow> Some (map name modules) | _ \<Rightarrow> None)"

definition succeeds :: "Exception + RunOutcome \<Rightarrow> bool" where
  "succeeds r = (case r of Inl ex \<Rightarrow> False | Inr out \<Rightarrow> success (result out))"

definition otherModule2 :: Module where
  "otherModule2 = \<lparr> name = ''a'',
      source = \<lparr> filename = ''/a.js'', jsContent = ''module.exports = () => 1;'',
                 mapContent = None \<rparr>,
      requests = [], content = ''module.exports = () => 1;'',
      hash = ''module.exports = () => 1;'' \<rparr>"




text \<open>An entry without companion map, and an entry that requires \<^verbatim>\<open>./a\<close> twice.\<close>

definition files8 :: "MemoryFile list" where
  "files8 = [\<lparr> fileName = ''/e.js'', fileContent = ''x();'' \<rparr>]"

definition files9 :: "MemoryFile list" where
  "files9 =
     [\<lparr> fileName = ''/e.js'',
         fileContent = ''require('' @ [DQ] @ ''./a'' @ [DQ] @ '');require('' @ [DQ] @ ''./a''
                         @ [DQ] @ '');'' \<rparr>,
      \<lparr> fileName = ''/a.js'', fileContent = ''exports.x = 1;'' \<rparr>]"

text \<open>
  A file the cleanup keeps for a set of Source names: one of them, or the map of one.
\<close>

definition usedFile :: "string set \<Rightarrow> MemoryFile \<Rightarrow> bool" where
  "usedFile M f = (\<exists>n \<in> M. fileName f = n \<or> fileName f = n @ ''.map'')"

text \<open>
  The scenario of \<^verbatim>\<open>/e.js\<close> and \<^verbatim>\<open>/a.js\<close> with a third file nothing requires, the text
  of its bundle, and what its first run leaves behind.
\<close>

definition files7 :: "MemoryFile list" where
  "files7 = files2 @ [\<lparr> fileName = ''/unused.js'', fileContent = ''y();'' \<rparr>]"

definition bundle7 :: string where
  "bundle7 =
     ''((modules) => { const mycache = {};'' @ [NL]
     @ loaderText @ [SQ] @ ''e'' @ [SQ] @ ''); })({'' @ [NL]
     @ [SQ] @ ''e'' @ [SQ] @ '': (exports, myimport) => {'' @ [NL]
     @ ''var x = myimport('' @ [DQ] @ ''a'' @ [DQ] @ ''); x();'' @ ''}, ''
     @ [SQ] @ ''a'' @ [SQ] @ '': (exports, myimport) => {'' @ [NL]
     @ ''module.exports = () => 1;'' @ ''}, ''
     @ ''})'' @ [NL]"

definition outcome7 :: RunOutcome where
  "outcome7 =
     \<lparr> result = \<lparr> success = True, hasChange = Some True \<rparr>,
       packer = \<lparr> lastHash = Some bundle7,
                  lastModules = Some [clearModule entryModule2, clearModule otherModule2],
                  sources = Some (getSources (options0 ''/e.js'' files7)) \<rparr>,
       filesAfter = files2,
       written = [(''/out.js'', bundle7)] \<rparr>"

text \<open>
  A detected load call, as index and captured path, is resolvable when one of its three
  candidates is a Source; its resolution is the first candidate that is one. The
  resolution of a request is the file name the code resolved it to.
\<close>

definition resolvable :: "Env \<Rightarrow> Source list \<Rightarrow> Source \<Rightarrow> nat \<times> string \<Rightarrow> bool" where
  "resolvable E srcs src call = (find (isSource srcs) (candidates E src (snd call)) \<noteq> None)"

definition resolution :: "Env \<Rightarrow> Source list \<Rightarrow> Source \<Rightarrow> nat \<times> string \<Rightarrow> nat \<times> string \<times> string option" where
  "resolution E srcs src call =
     (fst call, snd call, find (isSource srcs) (candidates E src (snd call)))"

definition requestResolution :: "ModuleRequest \<Rightarrow> nat \<times> string \<times> string option" where
  "requestResolution r = (index r, raw r, Some (resolvedFileName r))"

text \<open>
  The scenario of an entry that requires \<^verbatim>\<open>./b.js\<close>, a Source as it stands,
  \<^verbatim>\<open>./a\<close>, where both \<^verbatim>\<open>/a.js\<close> and \<^verbatim>\<open>/a/index.js\<close> are Sources, and
  \<^verbatim>\<open>./lib\<close>, where only \<^verbatim>\<open>/lib/index.js\<close> is one.
\<close>

definition files4w :: "MemoryFile list" where
  "files4w =
     [\<lparr> fileName = ''/e.js'',
         fileContent = ''require('' @ [DQ] @ ''./b.js'' @ [DQ] @ '');require('' @ [DQ] @ ''./a''
                         @ [DQ] @ '');require('' @ [DQ] @ ''./lib'' @ [DQ] @ '');'' \<rparr>,
      \<lparr> fileName = ''/b.js'', fileContent = ''exports.b = 1;'' \<rparr>,
      \<lparr> fileName = ''/a/index.js'', fileContent = ''exports.ai = 1;'' \<rparr>,
      \<lparr> fileName = ''/a.js'', fileContent = ''exports.a = 1;'' \<rparr>,
      \<lparr> fileName = ''/lib/index.js'', fileContent = ''exports.l = 1;'' \<rparr>]"

definition entrySource4w :: Source where
  "entrySource4w = \<lparr> filename = ''/e.js'',
      jsContent = ''require('' @ [DQ] @ ''./b.js'' @ [DQ] @ '');require('' @ [DQ] @ ''./a''
                    @ [DQ] @ '');require('' @ [DQ] @ ''./lib'' @ [DQ] @ '');'',
      mapContent = None \<rparr>"

text \<open>
  Three failing runs of an instance that has run before (its fields are those the first
  run of the scenario above left): the two files that require each other, the entry that
  requires a missing file, and an entry that is not in the file list. Each is what the run
  returns.
\<close>

definition cycleOutcome10 :: RunOutcome where
  "cycleOutcome10 =
     \<lparr> result = \<lparr> success = False, hasChange = None \<rparr>,
       packer = \<lparr> lastHash = Some bundle7,
                  lastModules = Some [clearModule entryModule2, clearModule otherModule2],
                  sources = Some (getSources (options0 ''/e.js'' files5)) \<rparr>,
       filesAfter = files5, written = [] \<rparr>"

definition unresolvedOutcome10 :: RunOutcome where
  "unresolvedOutcome10 =
     \<lparr> result = \<lparr> success = False, hasChange = None \<rparr>,
       packer = \<lparr> lastHash = Some bundle7,
                  lastModules = Some [clearModule entryModule2, clearModule otherModule2],
                  sources = Some (getSources (options0 ''/e.js'' files4)) \<rparr>,
       filesAfter = files4, written = [] \<rparr>"

definition noEntryOutcome10 :: RunOutcome where
  "noEntryOutcome10 =
     \<lparr> result = \<lparr> success = False, hasChange = None \<rparr>,
       packer = \<lparr> lastHash = Some bundle7,
                  lastModules = Some [clearModule entryModule2, clearModule otherModule2],
                  sources = Some (getSources (options0 ''/x.js'' files7)) \<rparr>,
       filesAfter = files7, written = [] \<rparr>"

section \<open>The shape of a run\<close>

lemma finishRun_success:
  "finishRun E options this modules resultJs resultMap = Inr out \<Longrightarrow> success (result out)"
  by (auto simp: finishRun_def Let_def split: if_splits option.splits)

lemma run_cases:
  assumes "run E options this = Inr out"
  shows "out = failure options (this \<lparr> sources := Some (getSources options) \<rparr>)
       \<or> (\<exists>modules resultJs resultMap.
             buildModules E options (getSources options) [entry options] 0 [] = Inr (Some modules)
           \<and> checkCircularReference modules = Inr False
           \<and> emitBundle E options modules = Inr (resultJs, resultMap)
           \<and> finishRun E options (this \<lparr> sources := Some (getSources options) \<rparr>) modules
                 resultJs resultMap = Inr out)"
proof (cases "list_ex (\<lambda>s. filename s = entry options) (getSources options)")
  case False
  with assms show ?thesis by (simp add: run_def Let_def)
next
  case True
  show ?thesis
  proof (cases "buildModules E options (getSources options) [entry options] 0 []")
    case (Inl ex)
    with assms True show ?thesis by (simp add: run_def Let_def)
  next
    case (Inr built)
    show ?thesis
    proof (cases built)
      case None
      with assms True Inr show ?thesis by (simp add: run_def Let_def)
    next
      case (Some modules)
      show ?thesis
      proof (cases "checkCircularReference modules")
        case (Inl ex)
        with assms True Inr Some show ?thesis by (simp add: run_def Let_def)
      next
        case circ: (Inr c)
        show ?thesis
        proof (cases c)
          case True
          with assms \<open>list_ex (\<lambda>s. filename s = entry options) (getSources options)\<close> Inr Some circ
          show ?thesis by (simp add: run_def Let_def)
        next
          case False
          show ?thesis
          proof (cases "emitBundle E options modules")
            case (Inl ex)
            with assms True Inr Some circ False show ?thesis by (simp add: run_def Let_def)
          next
            case emitted: (Inr p)
            obtain resultJs resultMap where p: "p = (resultJs, resultMap)" by (cases p)
            with assms True Inr Some circ False emitted show ?thesis
              by (simp add: run_def Let_def)
          qed
        qed
      qed
    qed
  qed
qed

section \<open>Failure leaves everything as it was\<close>

text \<open>
  Claim C10. Whenever \<^verbatim>\<open>run\<close> returns a result with \<^verbatim>\<open>success: false\<close> (entry not
  found, unresolved load call, circular reference), \<^verbatim>\<open>lastHash\<close> and \<^verbatim>\<open>lastModules\<close>
  of the instance and the caller's file list are what they were before the run, and no
  file is written.
\<close>

theorem run_failure_atomic:
  assumes "run E options this = Inr out" and "\<not> success (result out)"
  shows "lastHash (packer out) = lastHash this \<and> lastModules (packer out) = lastModules this
         \<and> filesAfter out = files options \<and> written out = []"
proof -
  from run_cases[OF assms(1)] assms(2) finishRun_success
  have "out = failure options (this \<lparr> sources := Some (getSources options) \<rparr>)"
    by blast
  then show ?thesis by (simp add: failure_def)
qed

theorem run_failure_atomic_witness:
  "run env0 (options0 ''/e.js'' files5) (packer outcome7) = Inr cycleOutcome10
   \<and> run env0 (options0 ''/e.js'' files4) (packer outcome7) = Inr unresolvedOutcome10
   \<and> run env0 (options0 ''/x.js'' files7) (packer outcome7) = Inr noEntryOutcome10
   \<and> \<not> success (result cycleOutcome10) \<and> \<not> success (result unresolvedOutcome10)
   \<and> \<not> success (result noEntryOutcome10)
   \<and> lastHash (packer outcome7) = Some bundle7
   \<and> lastModules (packer outcome7) = Some [clearModule entryModule2, clearModule otherModule2]
   \<and> files (options0 ''/e.js'' files5) = files5 \<and> files (options0 ''/e.js'' files4) = files4
   \<and> files (options0 ''/x.js'' files7) = files7
   \<and> (lastHash (packer cycleOutcome10) = lastHash (packer outcome7)
        \<and> lastModules (packer cycleOutcome10) = lastModules (packer outcome7)
        \<and> filesAfter cycleOutcome10 = files (options0 ''/e.js'' files5)
        \<and> written cycleOutcome10 = [])
   \<and> (lastHash (packer unresolvedOutcome10) = lastHash (packer outcome7)
        \<and> lastModules (packer unresolvedOutcome10) = lastModules (packer outcome7)
        \<and> filesAfter unresolvedOutcome10 = files (options0 ''/e.js'' files4)
        \<and> written unresolvedOutcome10 = [])
   \<and> (lastHash (packer noEntryOutcome10) = lastHash (packer outcome7)
        \<and> lastModules (packer noEntryOutcome10) = lastModules (packer outcome7)
        \<and> filesAfter noEntryOutcome10 = files (options0 ''/x.js'' files7)
        \<and> written noEntryOutcome10 = [])"
proof -
  have r1: "run env0 (options0 ''/e.js'' files5) (packer outcome7) = Inr cycleOutcome10"
    by code_simp
  have r2: "run env0 (options0 ''/e.js'' files4) (packer outcome7) = Inr unresolvedOutcome10"
    by code_simp
  have r3: "run env0 (options0 ''/x.js'' files7) (packer outcome7) = Inr noEntryOutcome10"
    by code_simp
  have f1: "\<not> success (result cycleOutcome10)" by (simp add: cycleOutcome10_def)
  have f2: "\<not> success (result unresolvedOutcome10)" by (simp add: unresolvedOutcome10_def)
  have f3: "\<not> success (result noEntryOutcome10)" by (simp add: noEntryOutcome10_def)
  have s: "lastHash (packer outcome7) = Some bundle7"
    "lastModules (packer outcome7) = Some [clearModule entryModule2, clearModule otherModule2]"
    by (simp_all add: outcome7_def)
  have fs: "files (options0 ''/e.js'' files5) = files5" "files (options0 ''/e.js'' files4) = files4"
    "files (options0 ''/x.js'' files7) = files7"
    by (simp_all add: options0_def)
  from run_failure_atomic[OF r1 f1] run_failure_atomic[OF r2 f2] run_failure_atomic[OF r3 f3]
    r1 r2 r3 f1 f2 f3 s fs
  show ?thesis by simp
qed

section \<open>Rewriting of load calls\<close>

lemma length_requireOpen: "length requireOpen = 9"
  by (simp add: requireOpen_def)

lemma length_callClose: "length callClose = 3"
  by (simp add: callClose_def)

lemma loadCall_length: "length (loadCall r) = length (raw r) + 12"
  by (simp add: loadCall_def length_requireOpen length_callClose)

lemma exec_slice:
  assumes "exec js lastIndex = Some (j, rawText)"
  shows "lastIndex \<le> j" and "j + length rawText + 12 \<le> length js"
    and "slice js j (j + length rawText + 12) = requireOpen @ rawText @ callClose"
proof -
  have len: "length (requireOpen @ rawText @ callClose) = length rawText + 12"
    by (simp add: length_requireOpen length_callClose)
  from exec_progress[OF assms] len show "lastIndex \<le> j" "j + length rawText + 12 \<le> length js"
    by simp_all
  from exec_Some[OF assms] obtain pre rest where
    d: "drop lastIndex js = pre @ requireOpen @ rawText @ callClose @ rest"
    and j: "j = lastIndex + length pre" by blast
  have "drop j js = drop (length pre) (drop lastIndex js)"
    by (simp add: j add.commute)
  also have "\<dots> = (requireOpen @ rawText @ callClose) @ rest" by (simp add: d)
  finally have "take (length (requireOpen @ rawText @ callClose)) (drop j js)
      = requireOpen @ rawText @ callClose" by simp
  then have "take (length rawText + 12) (drop j js) = requireOpen @ rawText @ callClose"
    by (simp only: len)
  then show "slice js j (j + length rawText + 12) = requireOpen @ rawText @ callClose"
    by (simp add: slice_def add.assoc)
qed

lemma scanRequests_wellPlaced:
  "scanRequests E options srcs src lastIndex reqs = Some res \<Longrightarrow>
   \<exists>new. res = reqs @ new \<and> wellPlaced (jsContent src) lastIndex new"
proof (induction E options srcs src lastIndex reqs rule: scanRequests.induct)
  case (1 E options srcs src lastIndex reqs)
  show ?case
  proof (cases "exec (jsContent src) lastIndex")
    case None
    with "1.prems" have "res = reqs"
      by (simp add: scanRequests.simps[of E options srcs src lastIndex reqs])
    then show ?thesis by simp
  next
    case (Some p)
    obtain j rawText where p: "p = (j, rawText)" by (cases p)
    let ?r = "\<lambda>f. \<lparr> index = j, raw = rawText, resolvedFileName = f,
                      resolvedModuleName = requiredModuleNameOf E (entry options) f \<rparr>"
    from "1.prems"(1) Some p obtain f where
      f: "requiredFileNameOf srcs (resolve (cwd E) [dirname (filename src), rawText]) = Some f"
      and ne: "f \<noteq> []"
      and rec: "scanRequests E options srcs src (j + length (requireOpen @ rawText @ callClose))
          (reqs @ [?r f]) = Some res"
      by (auto simp: scanRequests.simps[of E options srcs src lastIndex reqs]
               split: option.splits if_splits)
    from "1.IH"[OF Some p[symmetric] f ne rec] obtain new where
      new: "res = (reqs @ [?r f]) @ new"
      "wellPlaced (jsContent src) (j + length (requireOpen @ rawText @ callClose)) new" by blast
    have len: "j + length (requireOpen @ rawText @ callClose) = j + length rawText + 12"
      by (simp add: length_requireOpen length_callClose)
    from Some p have e: "exec (jsContent src) lastIndex = Some (j, rawText)" by simp
    from new(2) have "wellPlaced (jsContent src) (j + length rawText + 12) new"
      by (simp only: len)
    with exec_slice[OF e]
    have "wellPlaced (jsContent src) lastIndex (?r f # new)"
      by (simp add: loadCall_def)
    with new(1) show ?thesis by simp
  qed
qed

lemma rewriteRequests_interleave:
  "wellPlaced js p rs \<Longrightarrow> p \<le> length js \<Longrightarrow>
   \<exists>gaps rest. length gaps = length rs
     \<and> drop p js = interleave gaps (map loadCall rs) rest
     \<and> (\<forall>mc. rewriteRequests js rs p mc = mc @ interleave gaps (map importCall rs) rest)"
proof (induction rs arbitrary: p)
  case Nil
  have "length ([]::string list) = length ([]::ModuleRequest list)
     \<and> drop p js = interleave [] (map loadCall []) (drop p js)
     \<and> (\<forall>mc. rewriteRequests js [] p mc = mc @ interleave [] (map importCall []) (drop p js))"
    by (simp add: sliceFrom_def)
  then show ?case by blast
next
  case (Cons r rs)
  let ?e = "index r + length (raw r) + 12"
  from Cons.prems have p: "p \<le> index r" and e: "?e \<le> length js"
    and call: "slice js (index r) ?e = loadCall r" and wp: "wellPlaced js ?e rs" by simp_all
  from Cons.IH[OF wp e] obtain gaps rest where
    g: "length gaps = length rs" "drop ?e js = interleave gaps (map loadCall rs) rest"
    "\<And>mc. rewriteRequests js rs ?e mc = mc @ interleave gaps (map importCall rs) rest" by blast
  have d1: "drop p js = slice js p (index r) @ drop (index r) js"
  proof -
    have "drop (index r) js = drop (index r - p) (drop p js)"
      using p by simp
    then show ?thesis
      by (simp only: slice_def append_take_drop_id)
  qed
  have d2: "drop (index r) js = loadCall r @ drop ?e js"
  proof -
    have t: "take (length (raw r) + 12) (drop (index r) js) = loadCall r"
      using call by (simp add: slice_def add.assoc)
    have "drop ?e js = drop (length (raw r) + 12) (drop (index r) js)"
      by (simp add: add.commute add.left_commute)
    then have "loadCall r @ drop ?e js
        = take (length (raw r) + 12) (drop (index r) js)
          @ drop (length (raw r) + 12) (drop (index r) js)"
      by (simp only: t)
    then show ?thesis by (simp only: append_take_drop_id)
  qed
  have "length (slice js p (index r) # gaps) = length (r # rs)
     \<and> drop p js = interleave (slice js p (index r) # gaps) (map loadCall (r # rs)) rest
     \<and> (\<forall>mc. rewriteRequests js (r # rs) p mc
            = mc @ interleave (slice js p (index r) # gaps) (map importCall (r # rs)) rest)"
    using g d1 d2 by (simp add: importCall_def)
  then show ?case by blast
qed

lemma wellPlaced_spans:
  "wellPlaced js p rs \<Longrightarrow>
   \<forall>r \<in> set rs. slice js (index r) (index r + length (raw r) + 12) = loadCall r"
  by (induction rs arbitrary: p) auto

lemma processModule_interleave:
  assumes "processModule E options srcs src = Some m"
  shows "\<exists>gaps rest. length gaps = length (requests m)
     \<and> jsContent src = interleave gaps (map loadCall (requests m)) rest
     \<and> content m = interleave gaps (map importCall (requests m)) rest
     \<and> (\<forall>r \<in> set (requests m).
           slice (jsContent src) (index r) (index r + length (raw r) + 12) = loadCall r
         \<and> length (loadCall r) = length (raw r) + 12)"
proof -
  from assms obtain reqs where
    s: "scanRequests E options srcs src 0 [] = Some reqs"
    and m: "requests m = reqs" "content m = rewriteRequests (jsContent src) reqs 0 []"
    by (auto simp: processModule_def Let_def split: option.splits)
  from scanRequests_wellPlaced[OF s] have wp: "wellPlaced (jsContent src) 0 reqs" by simp
  from rewriteRequests_interleave[OF wp] obtain gaps rest where
    g: "length gaps = length reqs" "drop 0 (jsContent src) = interleave gaps (map loadCall reqs) rest"
    "\<forall>mc. rewriteRequests (jsContent src) reqs 0 mc = mc @ interleave gaps (map importCall reqs) rest"
    by blast
  from g(3) have c: "rewriteRequests (jsContent src) reqs 0 [] = interleave gaps (map importCall reqs) rest"
    by simp
  have "length gaps = length (requests m)
     \<and> jsContent src = interleave gaps (map loadCall (requests m)) rest
     \<and> content m = interleave gaps (map importCall (requests m)) rest
     \<and> (\<forall>r \<in> set (requests m).
           slice (jsContent src) (index r) (index r + length (raw r) + 12) = loadCall r
         \<and> length (loadCall r) = length (raw r) + 12)"
    using g(1,2) c m wellPlaced_spans[OF wp] by (simp add: loadCall_length)
  then show ?thesis by blast
qed

section \<open>Merging of source maps\<close>

lemma eachMapping_accepted:
  "list_all (accepted E a (offset + 1)) mappings \<Longrightarrow>
   eachMapping E offset mappings (Some a) gen
     = Inr (gen @ map (reanchor E a (offset + 1)) mappings)"
proof (induction mappings arbitrary: gen)
  case Nil
  then show ?case by simp
next
  case (Cons mapping rest)
  from Cons.prems have h: "accepted E a (offset + 1) mapping"
    and r: "list_all (accepted E a (offset + 1)) rest" by simp_all
  from h obtain src where src: "mappingSource mapping = Some src"
    and v: "validMapping (reanchor E a (offset + 1) mapping)"
    by (auto simp: accepted_def)
  from src have re: "reanchor E a (offset + 1) mapping
      = \<lparr> mappingSource = Some (resolve (cwd E) [src]),
          originalLine = originalLine mapping,
          originalColumn = originalColumn mapping,
          generatedLine = generatedLine mapping - a + offset + 1,
          generatedColumn = generatedColumn mapping \<rparr>"
    by (simp add: reanchor_def)
  from v re have "addMapping gen \<lparr> mappingSource = Some (resolve (cwd E) [src]),
          originalLine = originalLine mapping,
          originalColumn = originalColumn mapping,
          generatedLine = generatedLine mapping - a + offset + 1,
          generatedColumn = generatedColumn mapping \<rparr>
      = Inr (gen @ [reanchor E a (offset + 1) mapping])"
    by (simp add: addMapping_def)
  with src Cons.IH[OF r, of "gen @ [reanchor E a (offset + 1) mapping]"] show ?case
    by simp
qed

lemma eachMapping_returns:
  "eachMapping E offset mappings (Some a) gen = Inr gen1 \<Longrightarrow>
   list_all (accepted E a (offset + 1)) mappings"
proof (induction mappings arbitrary: gen)
  case Nil
  then show ?case by simp
next
  case (Cons mapping rest)
  from Cons.prems obtain src where src: "mappingSource mapping = Some src"
    by (cases "mappingSource mapping") auto
  let ?added = "\<lparr> mappingSource = Some (resolve (cwd E) [src]),
          originalLine = originalLine mapping,
          originalColumn = originalColumn mapping,
          generatedLine = generatedLine mapping - a + offset + 1,
          generatedColumn = generatedColumn mapping \<rparr>"
  from src have re: "reanchor E a (offset + 1) mapping = ?added"
    by (simp add: reanchor_def)
  from Cons.prems src obtain gen2 where a: "addMapping gen ?added = Inr gen2"
    and rest: "eachMapping E offset rest (Some a) gen2 = Inr gen1"
    by (cases "addMapping gen ?added") auto
  from a have "validMapping ?added" by (auto simp: addMapping_def split: if_splits)
  with src re have "accepted E a (offset + 1) mapping" by (simp add: accepted_def)
  with Cons.IH[OF rest] show ?case by simp
qed

lemma eachMapping_first:
  "eachMapping E offset mappings None gen
     = eachMapping E offset mappings (Some (localAnchor mappings)) gen"
  by (cases mappings) (simp_all add: localAnchor_def)

lemma emitModule_with_map:
  assumes "generator host = Some gen" "mapContent (source m) = Some text"
    and "consumeMap E text = Inr mappings"
  shows "emitModule E host m = Inr host' \<longleftrightarrow>
     (\<exists>gen1. eachMapping E (lineOffset host + 1) mappings (Some (localAnchor mappings)) gen = Inr gen1
        \<and> host' = host \<lparr> sb := sb host @ [SQ] @ name m @ [SQ] @ '': (exports, myimport) => {''
                                  @ [NL] @ content m @ ''}, '',
                          lineOffset := lineOffset host + 1
                            + (int (length (split NL (content m))) - 1),
                          generator := Some gen1 \<rparr>)"
  using assms
  by (cases "eachMapping E (lineOffset host + 1) mappings (Some (localAnchor mappings)) gen")
     (auto simp: emitModule_def Let_def eachMapping_first)

text \<open>A mapping without source makes \<^verbatim>\<open>emitModule\<close> throw.\<close>

lemma emitModule_sourceless_throws:
  assumes "generator host = Some gen" "mapContent (source m) = Some text"
    and "consumeMap E text = Inr mappings"
    and "\<exists>mapping \<in> set mappings. mappingSource mapping = None"
  shows "\<exists>ex. emitModule E host m = Inl ex"
proof (cases "emitModule E host m")
  case (Inl ex)
  then show ?thesis by blast
next
  case (Inr host')
  with emitModule_with_map[OF assms(1-3), of host'] obtain gen1 where
    "eachMapping E (lineOffset host + 1) mappings (Some (localAnchor mappings)) gen = Inr gen1"
    by blast
  from eachMapping_returns[OF this] assms(4) show ?thesis
    by (auto simp: list_all_iff accepted_def)
qed

text \<open>
  Claim C6, as amended. With source maps on, for a module whose mappings all have a source
  and are taken by the generator, \<^verbatim>\<open>emitModule\<close> returns, and whenever it returns every
  mapping of the module's map has been added to the merged map, in order, with its
  generated column unchanged and its generated line equal to its own generated line, minus
  the generated line of the first mapping of that map, plus the line offset before
  \<^verbatim>\<open>emitModule\<close> is called for the module, plus 2: the line offset has been advanced over
  the declaration line of the module when the mappings are added.
\<close>

theorem emitModule_reanchors_mappings:
  assumes "generator host = Some gen" "mapContent (source m) = Some text"
    and "consumeMap E text = Inr mappings"
  shows "(list_all (accepted E (localAnchor mappings) (lineOffset host + 2)) mappings \<longrightarrow>
            (\<exists>host'. emitModule E host m = Inr host'))
       \<and> (\<forall>host'. emitModule E host m = Inr host' \<longrightarrow>
            generator host'
              = Some (gen @ map (reanchor E (localAnchor mappings) (lineOffset host + 2)) mappings)
            \<and> generatedLinesOf (Inr host')
              = Some (map generatedLine gen
                  @ map (\<lambda>mapping. generatedLine mapping - localAnchor mappings + lineOffset host + 2)
                      mappings)
            \<and> generatedColumnsOf (Inr host')
              = Some (map generatedColumn gen @ map generatedColumn mappings))"
proof (intro conjI allI impI)
  have s: "lineOffset host + 1 + 1 = lineOffset host + 2" by simp
  {
    assume "list_all (accepted E (localAnchor mappings) (lineOffset host + 2)) mappings"
    then have "list_all (accepted E (localAnchor mappings) (lineOffset host + 1 + 1)) mappings"
      by (simp only: s)
    from eachMapping_accepted[OF this, of gen] emitModule_with_map[OF assms]
    show "\<exists>host'. emitModule E host m = Inr host'" by blast
  }
  fix host' assume r: "emitModule E host m = Inr host'"
  with emitModule_with_map[OF assms, of host'] obtain gen1 where
    e: "eachMapping E (lineOffset host + 1) mappings (Some (localAnchor mappings)) gen = Inr gen1"
    and g: "generator host' = Some gen1" by auto
  from eachMapping_accepted[OF eachMapping_returns[OF e], of gen] e
  have "gen1 = gen @ map (reanchor E (localAnchor mappings) (lineOffset host + 1 + 1)) mappings"
    by simp
  with g show g': "generator host'
      = Some (gen @ map (reanchor E (localAnchor mappings) (lineOffset host + 2)) mappings)"
    by (simp only: s)
  from g' show "generatedLinesOf (Inr host')
      = Some (map generatedLine gen
          @ map (\<lambda>mapping. generatedLine mapping - localAnchor mappings + lineOffset host + 2)
              mappings)"
    by (simp add: generatedLinesOf_def reanchor_def comp_def)
  from g' show "generatedColumnsOf (Inr host')
      = Some (map generatedColumn gen @ map generatedColumn mappings)"
    by (simp add: generatedColumnsOf_def reanchor_def comp_def)
qed

theorem emitModule_reanchors_mappings_witness:
  "generator host6 = Some [] \<and> mapContent (source module6) = Some mapText6
   \<and> consumeMap env6 mapText6 = Inr mappings6
   \<and> lineOffset host6 = 2 \<and> localAnchor mappings6 = 3
   \<and> list_all (accepted env6 (localAnchor mappings6) (lineOffset host6 + 2)) mappings6
   \<and> generatedLinesOf (emitModule env6 host6 module6) = Some [4, 4, 6]
   \<and> generatedColumnsOf (emitModule env6 host6 module6) = Some [0, 7, 2]"
proof -
  have g: "generator host6 = Some []" by (simp add: host6_def emitRuntimePrefix_def Let_def)
  have c: "mapContent (source module6) = Some mapText6" by (simp add: module6_def)
  have p: "consumeMap env6 mapText6 = Inr mappings6" by (simp add: env6_def)
  have l: "lineOffset host6 = 2" "localAnchor mappings6 = 3"
    by (simp_all add: host6_def emitRuntimePrefix_def Let_def options0_def localAnchor_def
          mappings6_def)
  have a: "list_all (accepted env6 (localAnchor mappings6) (lineOffset host6 + 2)) mappings6"
    by (simp add: l) (simp add: mappings6_def accepted_def reanchor_def validMapping_def)
  have cols: "map generatedColumn mappings6 = [0, 7, 2]" by (simp add: mappings6_def)
  have lines: "map (\<lambda>mapping. generatedLine mapping - localAnchor mappings6 + lineOffset host6 + 2)
      mappings6 = [4, 4, 6]"
    by (simp add: l) (simp add: mappings6_def)
  note inst = emitModule_reanchors_mappings[OF g c p]
  from inst a obtain host' where h1: "emitModule env6 host6 module6 = Inr host'" by blast
  from inst h1 have h2: "generatedLinesOf (Inr host')
       = Some (map generatedLine ([]::Mapping list)
           @ map (\<lambda>mapping. generatedLine mapping - localAnchor mappings6 + lineOffset host6 + 2)
               mappings6)"
    by blast
  from inst h1 have h3: "generatedColumnsOf (Inr host')
       = Some (map generatedColumn ([]::Mapping list) @ map generatedColumn mappings6)"
    by blast
  from h1 h2 h3 lines cols have "generatedLinesOf (emitModule env6 host6 module6) = Some [4, 4, 6]"
    "generatedColumnsOf (emitModule env6 host6 module6) = Some [0, 7, 2]"
    by simp_all
  with g c p l a show ?thesis by simp
qed

text \<open>
  Claim C6 as stated fails: two lines precede the first module of an app bundle, the
  mappings on the generated lines 3, 3 and 5 of the module's own file, the first the
  anchor, are moved to the lines 4, 4 and 6 of the bundle, where the module's content
  starts on line 4; the formula of the claim gives 3, 3 and 5.
\<close>

theorem first_mapping_line_counterexample:
  "lineOffset host6 = 2
   \<and> generatedLinesOf (emitModule env6 host6 module6) = Some [4, 4, 6]
   \<and> map (\<lambda>mapping. generatedLine mapping - localAnchor mappings6 + lineOffset host6 + 1)
         mappings6 = [3, 3, 5]"
  by code_simp

text \<open>The run of the same module with a map that has a mapping without source throws.\<close>

lemma sourceless_mapping_throws:
  "emitModule sourcelessEnv6 host6 module6 = Inl TypeError"
  by code_simp

section \<open>Detected load calls and their resolution\<close>

lemma requiredFileNameOf_find:
  "requiredFileNameOf srcs (resolve (cwd E) [dirname (filename src), rawText])
     = find (isSource srcs) (candidates E src rawText)"
  by (simp add: requiredFileNameOf_def candidates_def isSource_def Let_def)

lemma resolve_nonempty: "resolve c args \<noteq> []"
  by (auto simp: resolve_def Let_def split: prod.splits)

lemma requiredFileNameOf_nonempty:
  "requiredFileNameOf srcs (resolve c args) = Some f \<Longrightarrow> f \<noteq> []"
  using resolve_nonempty[of c args]
  by (auto simp: requiredFileNameOf_def split: if_splits)

lemma scanRequests_all_resolved:
  "scanRequests E options srcs src lastIndex reqs = Some res \<Longrightarrow>
   \<forall>(j, rawText) \<in> set (allMatches (jsContent src) lastIndex).
      find (isSource srcs) (candidates E src rawText) \<noteq> None"
proof (induction E options srcs src lastIndex reqs rule: scanRequests.induct)
  case (1 E options srcs src lastIndex reqs)
  show ?case
  proof (cases "exec (jsContent src) lastIndex")
    case None
    then show ?thesis by (simp add: allMatches.simps[of "jsContent src" lastIndex])
  next
    case (Some p)
    obtain j rawText where p: "p = (j, rawText)" by (cases p)
    from "1.prems"(1) Some p obtain f where
      f: "requiredFileNameOf srcs (resolve (cwd E) [dirname (filename src), rawText]) = Some f"
      and ne: "f \<noteq> []"
      and rec: "scanRequests E options srcs src (j + length (requireOpen @ rawText @ callClose))
          (reqs @ [\<lparr> index = j, raw = rawText, resolvedFileName = f,
                      resolvedModuleName = requiredModuleNameOf E (entry options) f \<rparr>]) = Some res"
      by (auto simp: scanRequests.simps[of E options srcs src lastIndex reqs]
               split: option.splits if_splits)
    from "1.IH"[OF Some p[symmetric] f ne rec]
    have "\<forall>(j, rawText) \<in> set (allMatches (jsContent src) (j + length (requireOpen @ rawText @ callClose))).
      find (isSource srcs) (candidates E src rawText) \<noteq> None" .
    moreover from f have "find (isSource srcs) (candidates E src rawText) \<noteq> None"
      by (simp add: requiredFileNameOf_find)
    ultimately show ?thesis
      using Some p by (simp add: allMatches.simps[of "jsContent src" lastIndex])
  qed
qed

lemma unresolved_processModule:
  assumes "(j, rawText) \<in> set (allMatches (jsContent src) 0)"
    and "find (isSource srcs) (candidates E src rawText) = None"
  shows "processModule E options srcs src = None"
proof (cases "scanRequests E options srcs src 0 []")
  case None
  then show ?thesis by (simp add: processModule_def)
next
  case (Some res)
  from scanRequests_all_resolved[OF Some] assms show ?thesis by fastforce
qed

lemma scanRequests_first_candidate:
  "scanRequests E options srcs src lastIndex reqs = Some res \<Longrightarrow>
   \<forall>r \<in> set reqs. find (isSource srcs) (candidates E src (raw r)) = Some (resolvedFileName r) \<Longrightarrow>
   \<forall>r \<in> set res. find (isSource srcs) (candidates E src (raw r)) = Some (resolvedFileName r)"
proof (induction E options srcs src lastIndex reqs rule: scanRequests.induct)
  case (1 E options srcs src lastIndex reqs)
  show ?case
  proof (cases "exec (jsContent src) lastIndex")
    case None
    with "1.prems" show ?thesis
      by (simp add: scanRequests.simps[of E options srcs src lastIndex reqs])
  next
    case (Some p)
    obtain j rawText where p: "p = (j, rawText)" by (cases p)
    let ?r = "\<lambda>f. \<lparr> index = j, raw = rawText, resolvedFileName = f,
                      resolvedModuleName = requiredModuleNameOf E (entry options) f \<rparr>"
    from "1.prems"(1) Some p obtain f where
      f: "requiredFileNameOf srcs (resolve (cwd E) [dirname (filename src), rawText]) = Some f"
      and ne: "f \<noteq> []"
      and rec: "scanRequests E options srcs src (j + length (requireOpen @ rawText @ callClose))
          (reqs @ [?r f]) = Some res"
      by (auto simp: scanRequests.simps[of E options srcs src lastIndex reqs]
               split: option.splits if_splits)
    from f "1.prems"(2)
    have "\<forall>r \<in> set (reqs @ [?r f]).
       find (isSource srcs) (candidates E src (raw r)) = Some (resolvedFileName r)"
      by (simp add: requiredFileNameOf_find)
    from "1.IH"[OF Some p[symmetric] f ne rec this] show ?thesis .
  qed
qed

lemma scanRequests_matches:
  "scanRequests E options srcs src lastIndex reqs = Some res \<Longrightarrow>
   map (\<lambda>r. (index r, raw r)) res
     = map (\<lambda>r. (index r, raw r)) reqs @ allMatches (jsContent src) lastIndex"
proof (induction E options srcs src lastIndex reqs rule: scanRequests.induct)
  case (1 E options srcs src lastIndex reqs)
  show ?case
  proof (cases "exec (jsContent src) lastIndex")
    case None
    with "1.prems" show ?thesis
      by (simp add: scanRequests.simps[of E options srcs src lastIndex reqs]
            allMatches.simps[of "jsContent src" lastIndex])
  next
    case (Some p)
    obtain j rawText where p: "p = (j, rawText)" by (cases p)
    let ?r = "\<lambda>f. \<lparr> index = j, raw = rawText, resolvedFileName = f,
                      resolvedModuleName = requiredModuleNameOf E (entry options) f \<rparr>"
    from "1.prems"(1) Some p obtain f where
      f: "requiredFileNameOf srcs (resolve (cwd E) [dirname (filename src), rawText]) = Some f"
      and ne: "f \<noteq> []"
      and rec: "scanRequests E options srcs src (j + length (requireOpen @ rawText @ callClose))
          (reqs @ [?r f]) = Some res"
      by (auto simp: scanRequests.simps[of E options srcs src lastIndex reqs]
               split: option.splits if_splits)
    from "1.IH"[OF Some p[symmetric] f ne rec] Some p show ?thesis
      by (simp add: allMatches.simps[of "jsContent src" lastIndex])
  qed
qed


lemma processModule_requests:
  assumes "processModule E options srcs src = Some m"
  shows "map (\<lambda>r. (index r, raw r)) (requests m) = allMatches (jsContent src) 0"
    and "\<forall>r \<in> set (requests m).
           find (isSource srcs) (candidates E src (raw r)) = Some (resolvedFileName r)"
proof -
  from assms obtain reqs where
    s: "scanRequests E options srcs src 0 [] = Some reqs" and m: "requests m = reqs"
    by (auto simp: processModule_def Let_def split: option.splits)
  from scanRequests_matches[OF s] m
  show "map (\<lambda>r. (index r, raw r)) (requests m) = allMatches (jsContent src) 0" by simp
  from scanRequests_first_candidate[OF s] m
  show "\<forall>r \<in> set (requests m).
           find (isSource srcs) (candidates E src (raw r)) = Some (resolvedFileName r)" by simp
qed

text \<open>
  Claim C3. In every Module, the requests are the load calls \<^verbatim>\<open>require("<path>");\<close>
  detected in the content of its Source, each is replaced by
  \<^verbatim>\<open>myimport("<resolvedModuleName>");\<close> and all other text is unchanged: the source content
  and the module content are the same gaps and the same rest, with the load calls between
  them in the one and the import calls in the other. The span replaced for a request
  starts at its index, is the text of its load call and is 12 code units longer than the
  captured path.
\<close>

theorem processModule_rewrites_load_calls:
  assumes "processModule E options srcs src = Some m"
  shows "map (\<lambda>r. (index r, raw r)) (requests m) = allMatches (jsContent src) 0
     \<and> (\<exists>gaps rest. length gaps = length (requests m)
     \<and> jsContent src = interleave gaps (map loadCall (requests m)) rest
     \<and> content m = interleave gaps (map importCall (requests m)) rest
     \<and> (\<forall>r \<in> set (requests m).
           slice (jsContent src) (index r) (index r + length (raw r) + 12) = loadCall r
         \<and> length (loadCall r) = length (raw r) + 12))"
  using processModule_requests(1)[OF assms] processModule_interleave[OF assms] by simp

theorem processModule_rewrites_load_calls_witness:
  "processModule env0 (options0 ''/e.js'' files2) (getSources (options0 ''/e.js'' files2))
     entrySource2 = Some entryModule2
   \<and> map (\<lambda>r. (index r, raw r)) (requests entryModule2) = allMatches (jsContent entrySource2) 0
   \<and> (\<exists>gaps rest. length gaps = length (requests entryModule2)
     \<and> jsContent entrySource2 = interleave gaps (map loadCall (requests entryModule2)) rest
     \<and> content entryModule2 = interleave gaps (map importCall (requests entryModule2)) rest
     \<and> (\<forall>r \<in> set (requests entryModule2).
           slice (jsContent entrySource2) (index r) (index r + length (raw r) + 12) = loadCall r
         \<and> length (loadCall r) = length (raw r) + 12))"
proof -
  have p: "processModule env0 (options0 ''/e.js'' files2) (getSources (options0 ''/e.js'' files2))
     entrySource2 = Some entryModule2"
    by code_simp
  from processModule_rewrites_load_calls[OF p] p show ?thesis by blast
qed

section \<open>What the graph builder builds\<close>

lemma processModule_source:
  "processModule E options srcs src = Some m \<Longrightarrow> source m = src"
  by (auto simp: processModule_def Let_def split: option.splits)

lemma queueInv_step:
  assumes inv: "queueInv q i mods" and i: "i < length q"
    and src: "filename (source m) = q ! i"
  shows "queueInv (q @ filter (\<lambda>f. f \<notin> set q) (map resolvedFileName (requests m)))
           (Suc i) (mods @ [m])"
proof -
  from inv i src have "map (\<lambda>m. filename (source m)) (mods @ [m]) = take (Suc i) q"
    by (simp add: queueInv_def take_Suc_conv_app_nth)
  moreover have "resolvedFileName ` set (requests m)
      \<subseteq> set (q @ filter (\<lambda>f. f \<notin> set q) (map resolvedFileName (requests m)))"
    by auto
  moreover from inv have "\<forall>m' \<in> set mods. resolvedFileName ` set (requests m')
      \<subseteq> set (q @ filter (\<lambda>f. f \<notin> set q) (map resolvedFileName (requests m)))"
    by (auto simp: queueInv_def)
  ultimately show ?thesis using i by (simp add: queueInv_def)
qed

lemma buildModules_built:
  "buildModules E options srcs q i mods = Inr (Some ms) \<Longrightarrow> queueInv q i mods \<Longrightarrow>
   (\<exists>new q'. ms = mods @ new \<and> map (\<lambda>m. filename (source m)) ms = q @ q'
      \<and> (\<forall>m \<in> set new. find (\<lambda>s. filename s = filename (source m)) srcs = Some (source m)
                         \<and> processModule E options srcs (source m) = Some m)
      \<and> (\<forall>m \<in> set ms. resolvedFileName ` set (requests m) \<subseteq> set (q @ q')))"
proof (induction E options srcs q i mods rule: buildModules.induct)
  case (1 E options srcs q i mods)
  show ?case
  proof (cases "i < length q")
    case False
    with "1.prems" have ms: "ms = mods"
      by (simp add: buildModules.simps[of E options srcs q i mods])
    from False "1.prems"(2) have "map (\<lambda>m. filename (source m)) mods = q"
      by (simp add: queueInv_def)
    with ms "1.prems"(2) have "ms = mods @ [] \<and> map (\<lambda>m. filename (source m)) ms = q @ []
      \<and> (\<forall>m \<in> set []. find (\<lambda>s. filename s = filename (source m)) srcs = Some (source m)
                         \<and> processModule E options srcs (source m) = Some m)
      \<and> (\<forall>m \<in> set ms. resolvedFileName ` set (requests m) \<subseteq> set (q @ []))"
      by (simp add: queueInv_def)
    then show ?thesis by blast
  next
    case True
    from "1.prems"(1) True obtain src m where
      fnd: "find (\<lambda>s. filename s = q ! i) srcs = Some src"
      and pm: "processModule E options srcs src = Some m"
      and rec: "buildModules E options srcs
          (q @ filter (\<lambda>f. f \<notin> set q) (map resolvedFileName (requests m)))
          (Suc i) (mods @ [m]) = Inr (Some ms)"
      by (auto simp: buildModules.simps[of E options srcs q i mods] split: option.splits)
    let ?q = "q @ filter (\<lambda>f. f \<notin> set q) (map resolvedFileName (requests m))"
    from fnd have fn: "filename src = q ! i" by (auto simp: find_Some_iff)
    from pm have sm: "source m = src" by (rule processModule_source)
    from queueInv_step[OF "1.prems"(2) True] fn sm
    have inv: "queueInv ?q (Suc i) (mods @ [m])" by simp
    from "1.IH"[OF True fnd pm rec inv] obtain new q' where
      n: "ms = (mods @ [m]) @ new" "map (\<lambda>m. filename (source m)) ms = ?q @ q'"
      "\<forall>m \<in> set new. find (\<lambda>s. filename s = filename (source m)) srcs = Some (source m)
                         \<and> processModule E options srcs (source m) = Some m"
      "\<forall>m \<in> set ms. resolvedFileName ` set (requests m) \<subseteq> set (?q @ q')" by blast
    from fnd fn sm pm n(3)
    have "\<forall>m \<in> set (m # new). find (\<lambda>s. filename s = filename (source m)) srcs = Some (source m)
                         \<and> processModule E options srcs (source m) = Some m"
      by simp
    with n have "ms = mods @ (m # new)
      \<and> map (\<lambda>m. filename (source m)) ms
          = q @ (filter (\<lambda>f. f \<notin> set q) (map resolvedFileName (requests m)) @ q')
      \<and> (\<forall>x \<in> set (m # new). find (\<lambda>s. filename s = filename (source x)) srcs = Some (source x)
                         \<and> processModule E options srcs (source x) = Some x)
      \<and> (\<forall>x \<in> set ms. resolvedFileName ` set (requests x)
            \<subseteq> set (q @ (filter (\<lambda>f. f \<notin> set q) (map resolvedFileName (requests m)) @ q')))"
      by simp
    then show ?thesis by blast
  qed
qed

lemma queueInv_start: "queueInv [e] 0 []"
  by (simp add: queueInv_def)

lemma buildModules_from_entry:
  assumes "buildModules E options srcs [entry options] 0 [] = Inr (Some ms)"
  shows "\<exists>q'. map (\<lambda>m. filename (source m)) ms = entry options # q'"
    and "\<forall>m \<in> set ms. find (\<lambda>s. filename s = filename (source m)) srcs = Some (source m)
                         \<and> processModule E options srcs (source m) = Some m"
    and "\<forall>m \<in> set ms. \<forall>r \<in> set (requests m).
            resolvedFileName r \<in> (\<lambda>m. filename (source m)) ` set ms"
proof -
  from buildModules_built[OF assms queueInv_start] obtain new q' where
    n: "ms = [] @ new" "map (\<lambda>m. filename (source m)) ms = [entry options] @ q'"
      "\<forall>m \<in> set new. find (\<lambda>s. filename s = filename (source m)) srcs = Some (source m)
                         \<and> processModule E options srcs (source m) = Some m"
      "\<forall>m \<in> set ms. resolvedFileName ` set (requests m) \<subseteq> set ([entry options] @ q')" by blast
  from n(2) show "\<exists>q'. map (\<lambda>m. filename (source m)) ms = entry options # q'" by simp
  from n(1,3) show "\<forall>m \<in> set ms. find (\<lambda>s. filename s = filename (source m)) srcs = Some (source m)
                         \<and> processModule E options srcs (source m) = Some m" by simp
  from n(2) have "set ([entry options] @ q') = (\<lambda>m. filename (source m)) ` set ms"
    by (metis set_map)
  with n(4) show "\<forall>m \<in> set ms. \<forall>r \<in> set (requests m).
            resolvedFileName r \<in> (\<lambda>m. filename (source m)) ` set ms" by blast
qed

lemma reached_built:
  assumes b: "buildModules E options srcs [entry options] 0 [] = Inr (Some ms)"
    and f: "f \<in> reached E options srcs"
  shows "f \<in> (\<lambda>m. filename (source m)) ` set ms"
  using f
proof (induction rule: reached.induct)
  case entry
  from buildModules_from_entry(1)[OF b]
  have "entry options \<in> set (map (\<lambda>m. filename (source m)) ms)" by auto
  then show ?case by simp
next
  case (request f src m r)
  from request.IH obtain m' where m': "m' \<in> set ms" "filename (source m') = f" by auto
  from buildModules_from_entry(2)[OF b] m'
  have "find (\<lambda>s. filename s = f) srcs = Some (source m')"
    "processModule E options srcs (source m') = Some m'" by auto
  with request.hyps have "m' = m" by simp
  with buildModules_from_entry(3)[OF b] m'(1) request.hyps(4) show ?case by blast
qed

text \<open>The queue holds names of Sources only, so the graph builder throws nothing.\<close>

lemma buildModules_no_throw:
  "set q \<subseteq> filename ` set srcs \<Longrightarrow> buildModules E options srcs q i mods \<noteq> Inl ex"
proof (induction E options srcs q i mods rule: buildModules.induct)
  case (1 E options srcs q i mods)
  show ?case
  proof (cases "i < length q")
    case False
    then show ?thesis by (simp add: buildModules.simps[of E options srcs q i mods])
  next
    case True
    with "1.prems" have "q ! i \<in> filename ` set srcs" by (meson nth_mem subsetD)
    then obtain src where fnd: "find (\<lambda>s. filename s = q ! i) srcs = Some src"
      by (cases "find (\<lambda>s. filename s = q ! i) srcs") (auto simp: find_None_iff)
    show ?thesis
    proof (cases "processModule E options srcs src")
      case None
      with True fnd show ?thesis by (simp add: buildModules.simps[of E options srcs q i mods])
    next
      case (Some m)
      from processModule_resolved[OF Some] "1.prems"
      have "set (q @ filter (\<lambda>f. f \<notin> set q) (map resolvedFileName (requests m)))
          \<subseteq> filename ` set srcs" by auto
      from "1.IH"[OF True fnd Some this] True fnd Some show ?thesis
        by (simp add: buildModules.simps[of E options srcs q i mods])
    qed
  qed
qed
section \<open>Unresolved load calls\<close>

lemma run_fails_on_reached_failure:
  assumes f: "f \<in> reached E options (getSources options)"
    and fnd: "find (\<lambda>s. filename s = f) (getSources options) = Some src"
    and pm: "processModule E options (getSources options) src = None"
  shows "run E options this = Inr (failure options (this \<lparr> sources := Some (getSources options) \<rparr>))"
proof (cases "list_ex (\<lambda>s. filename s = entry options) (getSources options)")
  case False
  then show ?thesis by (simp add: run_def Let_def)
next
  case True
  then have "set [entry options] \<subseteq> filename ` set (getSources options)"
    by (auto simp: list_ex_iff intro: rev_image_eqI)
  from buildModules_no_throw[OF this]
  have nothrow: "\<And>ex. buildModules E options (getSources options) [entry options] 0 [] \<noteq> Inl ex" .
  show ?thesis
  proof (cases "buildModules E options (getSources options) [entry options] 0 []")
    case (Inl ex)
    with nothrow show ?thesis by blast
  next
    case (Inr built)
    show ?thesis
    proof (cases built)
      case None
      with Inr True show ?thesis by (simp add: run_def Let_def)
    next
      case (Some ms)
      with Inr have b: "buildModules E options (getSources options) [entry options] 0 [] = Inr (Some ms)"
        by simp
      from reached_built[OF b f] obtain m' where m': "m' \<in> set ms" "filename (source m') = f" by auto
      from buildModules_from_entry(2)[OF b] m'
      have "find (\<lambda>s. filename s = f) (getSources options) = Some (source m')"
        "processModule E options (getSources options) (source m') = Some m'" by auto
      with fnd pm show ?thesis by simp
    qed
  qed
qed

lemma scanRequests_succeeds:
  "list_all (resolvable E srcs src) (allMatches (jsContent src) lastIndex) \<Longrightarrow>
   \<exists>res. scanRequests E options srcs src lastIndex reqs = Some res"
proof (induction E options srcs src lastIndex reqs rule: scanRequests.induct)
  case (1 E options srcs src lastIndex reqs)
  show ?case
  proof (cases "exec (jsContent src) lastIndex")
    case None
    then show ?thesis by (simp add: scanRequests.simps[of E options srcs src lastIndex reqs])
  next
    case (Some p)
    obtain j rawText where p: "p = (j, rawText)" by (cases p)
    from Some p have am: "allMatches (jsContent src) lastIndex
        = (j, rawText) # allMatches (jsContent src) (j + length (requireOpen @ rawText @ callClose))"
      by (simp add: allMatches.simps[of "jsContent src" lastIndex])
    with "1.prems" have here: "resolvable E srcs src (j, rawText)"
      and later: "list_all (resolvable E srcs src)
         (allMatches (jsContent src) (j + length (requireOpen @ rawText @ callClose)))"
      by simp_all
    from here obtain f where
      f: "requiredFileNameOf srcs (resolve (cwd E) [dirname (filename src), rawText]) = Some f"
      by (auto simp: resolvable_def requiredFileNameOf_find)
    from requiredFileNameOf_nonempty[OF f] have ne: "f \<noteq> []" .
    from "1.IH"[OF Some p[symmetric] f ne later] obtain res where
      "scanRequests E options srcs src (j + length (requireOpen @ rawText @ callClose))
          (reqs @ [\<lparr> index = j, raw = rawText, resolvedFileName = f,
                      resolvedModuleName = requiredModuleNameOf E (entry options) f \<rparr>]) = Some res"
      by blast
    with Some p f ne show ?thesis
      by (simp add: scanRequests.simps[of E options srcs src lastIndex reqs])
  qed
qed

lemma processModule_succeeds:
  assumes "list_all (resolvable E srcs src) (allMatches (jsContent src) 0)"
  shows "\<exists>m. processModule E options srcs src = Some m
           \<and> map requestResolution (requests m)
               = map (resolution E srcs src) (allMatches (jsContent src) 0)"
proof -
  from scanRequests_succeeds[OF assms, of options "[]"] obtain reqs where
    "scanRequests E options srcs src 0 [] = Some reqs" by blast
  then obtain m where m: "processModule E options srcs src = Some m"
    by (simp add: processModule_def Let_def)
  from processModule_requests[OF m]
  have a: "map (\<lambda>r. (index r, raw r)) (requests m) = allMatches (jsContent src) 0"
    and b: "\<forall>r \<in> set (requests m).
           find (isSource srcs) (candidates E src (raw r)) = Some (resolvedFileName r)"
    by simp_all
  from b have "map requestResolution (requests m)
      = map (resolution E srcs src) (map (\<lambda>r. (index r, raw r)) (requests m))"
    by (simp add: requestResolution_def resolution_def)
  with a m show ?thesis by simp
qed

lemma unresolvable_processModule:
  assumes "\<not> list_all (resolvable E srcs src) (allMatches (jsContent src) 0)"
  shows "processModule E options srcs src = None"
proof -
  from assms obtain j rawText where "(j, rawText) \<in> set (allMatches (jsContent src) 0)"
    "find (isSource srcs) (candidates E src rawText) = None"
    by (auto simp: list_all_iff resolvable_def)
  then show ?thesis by (rule unresolved_processModule)
qed

text \<open>
  Claim C4. For a Source the graph builder comes to: if for every load call detected in
  its content one of the literal path, the path plus \<^verbatim>\<open>.js\<close> and the path plus
  \<^verbatim>\<open>/index.js\<close> is a Source, its Module is built and its requests are the detected load
  calls, each resolved to the first of the three, in that order, that is a Source; and if
  for one detected load call none of the three is a Source, no Module is built and the run
  returns \<^verbatim>\<open>{ success: false }\<close> without \<^verbatim>\<open>hasChange\<close> and writes no file.
\<close>

theorem load_call_resolution:
  assumes "f \<in> reached E options (getSources options)"
    and "find (\<lambda>s. filename s = f) (getSources options) = Some src"
  shows "(list_all (resolvable E (getSources options) src) (allMatches (jsContent src) 0) \<longrightarrow>
            (\<exists>m. processModule E options (getSources options) src = Some m
               \<and> map requestResolution (requests m)
                   = map (resolution E (getSources options) src) (allMatches (jsContent src) 0)))
       \<and> (\<not> list_all (resolvable E (getSources options) src) (allMatches (jsContent src) 0) \<longrightarrow>
            processModule E options (getSources options) src = None
            \<and> run E options this =
                Inr \<lparr> result = \<lparr> success = False, hasChange = None \<rparr>,
                      packer = this \<lparr> sources := Some (getSources options) \<rparr>,
                      filesAfter = files options, written = [] \<rparr>)"
proof (intro conjI impI)
  assume "list_all (resolvable E (getSources options) src) (allMatches (jsContent src) 0)"
  then show "\<exists>m. processModule E options (getSources options) src = Some m
               \<and> map requestResolution (requests m)
                   = map (resolution E (getSources options) src) (allMatches (jsContent src) 0)"
    by (rule processModule_succeeds)
next
  assume n: "\<not> list_all (resolvable E (getSources options) src) (allMatches (jsContent src) 0)"
  then show pm: "processModule E options (getSources options) src = None"
    by (rule unresolvable_processModule)
  from run_fails_on_reached_failure[OF assms pm]
  show "run E options this =
                Inr \<lparr> result = \<lparr> success = False, hasChange = None \<rparr>,
                      packer = this \<lparr> sources := Some (getSources options) \<rparr>,
                      filesAfter = files options, written = [] \<rparr>"
    by (simp add: failure_def)
qed

theorem load_call_resolution_witness:
  "''/e.js'' \<in> reached env0 (options0 ''/e.js'' files4w) (getSources (options0 ''/e.js'' files4w))
   \<and> find (\<lambda>s. filename s = ''/e.js'') (getSources (options0 ''/e.js'' files4w))
        = Some entrySource4w
   \<and> list_all (resolvable env0 (getSources (options0 ''/e.js'' files4w)) entrySource4w)
        (allMatches (jsContent entrySource4w) 0)
   \<and> candidates env0 entrySource4w ''./a'' = [''/a'', ''/a.js'', ''/a/index.js'']
   \<and> (\<exists>m. processModule env0 (options0 ''/e.js'' files4w)
              (getSources (options0 ''/e.js'' files4w)) entrySource4w = Some m
          \<and> map requestResolution (requests m)
               = [(0, ''./b.js'', Some ''/b.js''), (18, ''./a'', Some ''/a.js''),
                  (33, ''./lib'', Some ''/lib/index.js'')])
   \<and> ''/e.js'' \<in> reached env0 (options0 ''/e.js'' files4) (getSources (options0 ''/e.js'' files4))
   \<and> find (\<lambda>s. filename s = ''/e.js'') (getSources (options0 ''/e.js'' files4)) = Some entrySource4
   \<and> \<not> list_all (resolvable env0 (getSources (options0 ''/e.js'' files4)) entrySource4)
          (allMatches (jsContent entrySource4) 0)
   \<and> processModule env0 (options0 ''/e.js'' files4) (getSources (options0 ''/e.js'' files4))
        entrySource4 = None
   \<and> run env0 (options0 ''/e.js'' files4) packer0 =
        Inr \<lparr> result = \<lparr> success = False, hasChange = None \<rparr>,
              packer = packer0 \<lparr> sources := Some (getSources (options0 ''/e.js'' files4)) \<rparr>,
              filesAfter = files (options0 ''/e.js'' files4), written = [] \<rparr>"
proof -
  have "entry (options0 ''/e.js'' files4w)
      \<in> reached env0 (options0 ''/e.js'' files4w) (getSources (options0 ''/e.js'' files4w))"
    by (rule reached.entry)
  then have r1: "''/e.js''
      \<in> reached env0 (options0 ''/e.js'' files4w) (getSources (options0 ''/e.js'' files4w))"
    by (simp add: options0_def)
  have s1: "find (\<lambda>s. filename s = ''/e.js'') (getSources (options0 ''/e.js'' files4w))
      = Some entrySource4w"
    by code_simp
  have a1: "list_all (resolvable env0 (getSources (options0 ''/e.js'' files4w)) entrySource4w)
        (allMatches (jsContent entrySource4w) 0)"
    by code_simp
  have c1: "candidates env0 entrySource4w ''./a'' = [''/a'', ''/a.js'', ''/a/index.js'']"
    by code_simp
  have v1: "map (resolution env0 (getSources (options0 ''/e.js'' files4w)) entrySource4w)
        (allMatches (jsContent entrySource4w) 0)
      = [(0, ''./b.js'', Some ''/b.js''), (18, ''./a'', Some ''/a.js''),
         (33, ''./lib'', Some ''/lib/index.js'')]"
    by code_simp
  from load_call_resolution[OF r1 s1, of packer0] a1 v1
  have ok: "\<exists>m. processModule env0 (options0 ''/e.js'' files4w)
              (getSources (options0 ''/e.js'' files4w)) entrySource4w = Some m
          \<and> map requestResolution (requests m)
               = [(0, ''./b.js'', Some ''/b.js''), (18, ''./a'', Some ''/a.js''),
                  (33, ''./lib'', Some ''/lib/index.js'')]"
    by simp
  have "entry (options0 ''/e.js'' files4)
      \<in> reached env0 (options0 ''/e.js'' files4) (getSources (options0 ''/e.js'' files4))"
    by (rule reached.entry)
  then have r2: "''/e.js''
      \<in> reached env0 (options0 ''/e.js'' files4) (getSources (options0 ''/e.js'' files4))"
    by (simp add: options0_def)
  have s2: "find (\<lambda>s. filename s = ''/e.js'') (getSources (options0 ''/e.js'' files4))
      = Some entrySource4"
    by code_simp
  have n2: "\<not> list_all (resolvable env0 (getSources (options0 ''/e.js'' files4)) entrySource4)
          (allMatches (jsContent entrySource4) 0)"
    by code_simp
  from load_call_resolution[OF r2 s2, of packer0] n2
  have failing: "processModule env0 (options0 ''/e.js'' files4)
        (getSources (options0 ''/e.js'' files4)) entrySource4 = None"
    "run env0 (options0 ''/e.js'' files4) packer0 =
        Inr \<lparr> result = \<lparr> success = False, hasChange = None \<rparr>,
              packer = packer0 \<lparr> sources := Some (getSources (options0 ''/e.js'' files4)) \<rparr>,
              filesAfter = files (options0 ''/e.js'' files4), written = [] \<rparr>"
    by simp_all
  from r1 s1 a1 c1 ok r2 s2 n2 failing show ?thesis by simp
qed

section \<open>Circular references, found and missed\<close>

lemma loadRequests_ok:
  "loadRequests modules loadings rs = Inr u \<Longrightarrow> r \<in> set rs \<Longrightarrow>
   find (\<lambda>x. name x = resolvedModuleName r) modules = Some x \<Longrightarrow>
   name x \<notin> name ` set loadings \<and> load modules loadings x = Inr ()"
proof (induction rs)
  case Nil
  then show ?case by simp
next
  case (Cons a rs)
  from Cons.prems(1) obtain rm where
    f: "find (\<lambda>x. name x = resolvedModuleName a) modules = Some rm"
    and n: "\<not> list_ex (\<lambda>o'. name o' = name rm) loadings"
    and l: "load modules loadings rm = Inr ()"
    and rest: "loadRequests modules loadings rs = Inr u"
    by (auto split: option.splits if_splits sum.splits)
  show ?case
  proof (cases "r = a")
    case True
    with Cons.prems(3) f have "x = rm" by simp
    with n l show ?thesis by (auto simp: list_ex_iff)
  next
    case False
    with Cons.prems(2) have "r \<in> set rs" by simp
    from Cons.IH[OF rest this Cons.prems(3)] show ?thesis .
  qed
qed

lemma load_ok_requested:
  assumes "load modules loadings m = Inr u" and "requestsModule modules m x"
  shows "name x \<notin> name ` set (loadings @ [m]) \<and> load modules (loadings @ [m]) x = Inr ()"
proof -
  from assms(2) obtain r where r: "r \<in> set (requests m)"
    "find (\<lambda>x. name x = resolvedModuleName r) modules = Some x"
    by (auto simp: requestsModule_def list_ex_iff)
  from assms(1) have "loadRequests modules (loadings @ [m]) (requests m) = Inr u" by simp
  from loadRequests_ok[OF this r] show ?thesis .
qed

lemma load_ok_chain:
  "load modules loadings m = Inr u \<Longrightarrow> loadingChain modules (m # chain) \<Longrightarrow>
   requestsModule modules (last (m # chain)) x \<Longrightarrow>
   name x \<notin> name ` set (loadings @ m # chain)"
proof (induction chain arbitrary: loadings m u)
  case Nil
  from load_ok_requested[OF Nil.prems(1)] Nil.prems(3) show ?case by simp
next
  case (Cons b chain)
  from Cons.prems(2) have e: "requestsModule modules m b" and c: "loadingChain modules (b # chain)"
    by simp_all
  from load_ok_requested[OF Cons.prems(1) e] have l: "load modules (loadings @ [m]) b = Inr ()"
    by simp
  from Cons.prems(3) have "requestsModule modules (last (b # chain)) x" by simp
  from Cons.IH[OF l c this] show ?case by simp
qed

lemma load_error:
  "wellFormed modules \<Longrightarrow> m \<in> set modules \<Longrightarrow> load modules loadings m = Inl ex \<Longrightarrow>
     ex = Error ''circular reference''"
  "wellFormed modules \<Longrightarrow> \<forall>r \<in> set rs. list_ex (\<lambda>x. name x = resolvedModuleName r) modules \<Longrightarrow>
     loadRequests modules loadings rs = Inl ex \<Longrightarrow> ex = Error ''circular reference''"
proof (induction modules loadings m and modules loadings rs rule: load_loadRequests.induct)
  case (1 modules loadings m)
  from "1.prems"(1,2) have "\<forall>r \<in> set (requests m). list_ex (\<lambda>x. name x = resolvedModuleName r) modules"
    by (auto simp: wellFormed_def list_all_iff)
  from "1.IH"[OF "1.prems"(1) this] "1.prems"(3) show ?case by simp
next
  case (2 modules loadings)
  then show ?case by simp
next
  case (3 modules loadings request rest)
  from "3.prems"(2) obtain rm where
    f: "find (\<lambda>m. name m = resolvedModuleName request) modules = Some rm"
    by (cases "find (\<lambda>m. name m = resolvedModuleName request) modules")
       (auto simp: find_None_iff list_ex_iff)
  then have mem: "rm \<in> set modules" by (auto simp: find_Some_iff)
  show ?case
  proof (cases "list_ex (\<lambda>o'. name o' = name rm) loadings")
    case True
    with f "3.prems"(3) show ?thesis by simp
  next
    case False
    show ?thesis
    proof (cases "load modules loadings rm")
      case (Inl e)
      with f False "3.prems"(3) have "e = ex" by simp
      with "3.IH"(1)[OF f False "3.prems"(1) mem] Inl show ?thesis by simp
    next
      case (Inr u)
      with f False "3.prems"(3) have "loadRequests modules loadings rest = Inl ex" by simp
      with "3.IH"(2)[OF f False Inr "3.prems"(1)] "3.prems"(2) show ?thesis by simp
    qed
  qed
qed

lemma checkCircularReference_chain:
  assumes wf: "wellFormed modules"
    and chain: "loadingChain modules (m0 # chain)" and first: "modules = m0 # ms"
    and cyc: "requestsModule modules (last (m0 # chain)) x"
      "name x \<in> name ` set (m0 # chain)"
  shows "checkCircularReference modules = Inr True"
proof (cases "load modules [] m0")
  case (Inr u)
  from load_ok_chain[OF Inr chain cyc(1)] cyc(2) show ?thesis by simp
next
  case (Inl ex)
  from first have "m0 \<in> set modules" by simp
  from load_error(1)[OF wf this Inl] Inl first show ?thesis
    by (simp add: checkCircularReference_def)
qed

text \<open>
  What the checker does find. In a well-formed module graph, if along some loading chain
  from the entry module the last Module requests a Module whose name is on the chain
  (itself included), the run returns the failure result: nothing is emitted or written and
  nothing is thrown. The checker follows names: it loads the first Module of a name.
\<close>

lemma name_cycle_fails_run:
  assumes "buildModules E options (getSources options) [entry options] 0 [] = Inr (Some modules)"
    and "wellFormed modules"
    and "modules = entryModule # others"
    and "loadingChain modules (entryModule # chain)"
    and "requestsModule modules (last (entryModule # chain)) requested"
    and "name requested \<in> name ` set (entryModule # chain)"
  shows "run E options this =
           Inr \<lparr> result = \<lparr> success = False, hasChange = None \<rparr>,
                 packer = this \<lparr> sources := Some (getSources options) \<rparr>,
                 filesAfter = files options, written = [] \<rparr>"
proof -
  from checkCircularReference_chain[OF assms(2,4,3,5,6)]
  have "checkCircularReference modules = Inr True" .
  with assms(1) show ?thesis
    by (simp add: run_def Let_def failure_def)
qed

lemma name_cycle_fails_run_example:
  "buildModules env0 (options0 ''/e.js'' files5) (getSources (options0 ''/e.js'' files5))
      [entry (options0 ''/e.js'' files5)] 0 [] = Inr (Some [entryModule5, otherModule5])
   \<and> wellFormed [entryModule5, otherModule5]
   \<and> loadingChain [entryModule5, otherModule5] (entryModule5 # [otherModule5])
   \<and> requestsModule [entryModule5, otherModule5] (last (entryModule5 # [otherModule5])) entryModule5
   \<and> name entryModule5 \<in> name ` set (entryModule5 # [otherModule5])
   \<and> run env0 (options0 ''/e.js'' files5) packer0 =
           Inr \<lparr> result = \<lparr> success = False, hasChange = None \<rparr>,
                 packer = packer0 \<lparr> sources := Some (getSources (options0 ''/e.js'' files5)) \<rparr>,
                 filesAfter = files (options0 ''/e.js'' files5), written = [] \<rparr>"
proof -
  have b: "buildModules env0 (options0 ''/e.js'' files5) (getSources (options0 ''/e.js'' files5))
      [entry (options0 ''/e.js'' files5)] 0 [] = Inr (Some [entryModule5, otherModule5])"
    by code_simp
  have w: "wellFormed [entryModule5, otherModule5]" by code_simp
  have c: "loadingChain [entryModule5, otherModule5] (entryModule5 # [otherModule5])" by code_simp
  have r: "requestsModule [entryModule5, otherModule5] (last (entryModule5 # [otherModule5])) entryModule5"
    by code_simp
  have n: "name entryModule5 \<in> name ` set (entryModule5 # [otherModule5])" by simp
  from name_cycle_fails_run[OF b w refl c r n, of packer0] b w c r n show ?thesis by simp
qed

text \<open>
  Claim C5 says that a run fails with the circular-reference result, and with no other
  error, whenever a module that can be reached from the entry requests a module that is
  being loaded. The code misses such a cycle when two Modules get the same name: here the
  entry requires \<^verbatim>\<open>./a\<close> and \<^verbatim>\<open>./aindex\<close>, \<^verbatim>\<open>/aindex.js\<close> requires the entry, both
  \<^verbatim>\<open>/a.js\<close> and \<^verbatim>\<open>/aindex.js\<close> are named \<^verbatim>\<open>a\<close>, the checker loads the Module of
  \<^verbatim>\<open>/a.js\<close> for both requests, and the run succeeds.
\<close>

theorem hidden_cycle_succeeds:
  "builtRequestFiles (buildModules env0 (options0 ''/e.js'' filesHidden5)
      (getSources (options0 ''/e.js'' filesHidden5)) [''/e.js''] 0 [])
     = Some [(''/e.js'', [''/a.js'', ''/aindex.js'']), (''/a.js'', []),
             (''/aindex.js'', [''/e.js''])]
   \<and> builtNames (buildModules env0 (options0 ''/e.js'' filesHidden5)
      (getSources (options0 ''/e.js'' filesHidden5)) [''/e.js''] 0 []) = Some [''e'', ''a'', ''a'']
   \<and> succeeds (run env0 (options0 ''/e.js'' filesHidden5) packer0)"
  by code_simp

text \<open>
  And where the name of a Module and the name its requests resolve to differ, the checker
  throws: the entry \<^verbatim>\<open>/a.js/b/e.js\<close> and \<^verbatim>\<open>/a.js\<close> require each other, \<^verbatim>\<open>/a.js\<close> is
  \<^verbatim>\<open>..\<close> relative to the directory of the entry, its Module is named \<^verbatim>\<open>..\<close> and the
  request for it the single dot.
\<close>

lemma unnamed_request_throws:
  "builtRequestFiles (buildModules env0 (options0 ''/a.js/b/e.js'' filesUnnamed5)
      (getSources (options0 ''/a.js/b/e.js'' filesUnnamed5)) [''/a.js/b/e.js''] 0 [])
     = Some [(''/a.js/b/e.js'', [''/a.js'']), (''/a.js'', [''/a.js/b/e.js''])]
   \<and> builtNames (buildModules env0 (options0 ''/a.js/b/e.js'' filesUnnamed5)
      (getSources (options0 ''/a.js/b/e.js'' filesUnnamed5)) [''/a.js/b/e.js''] 0 [])
     = Some [''e'', ''..'']
   \<and> run env0 (options0 ''/a.js/b/e.js'' filesUnnamed5) packer0 = Inl TypeError"
  by code_simp

section \<open>Module names\<close>









section \<open>The scenario of an entry and one required file\<close>

text \<open>
  Claim C2, as amended. For the entry \<^verbatim>\<open>/e.js\<close> with the content
  \<^verbatim>\<open>var x = require("./a.js"); x();\<close> and \<^verbatim>\<open>/a.js\<close> with the content
  \<^verbatim>\<open>module.exports = () => 1;\<close>, the run succeeds, the Modules are named \<^verbatim>\<open>e\<close> (the
  entry) and \<^verbatim>\<open>a\<close>, and the content of the entry Module has \<^verbatim>\<open>myimport("a");\<close> where
  the load call was.
\<close>

theorem scenario_entry_and_a:
  "buildModules env0 (options0 ''/e.js'' files2) (getSources (options0 ''/e.js'' files2))
      [''/e.js''] 0 [] = Inr (Some [entryModule2, otherModule2])
   \<and> name entryModule2 = ''e'' \<and> name otherModule2 = ''a''
   \<and> jsContent (source entryModule2) = ''var x = require('' @ [DQ] @ ''./a.js'' @ [DQ] @ ''); x();''
   \<and> content entryModule2 = ''var x = myimport('' @ [DQ] @ ''a'' @ [DQ] @ ''); x();''
   \<and> succeeds (run env0 (options0 ''/e.js'' files2) packer0)"
  by code_simp

text \<open>
  Claim C2 as stated fails: the entry Module is named \<^verbatim>\<open>e\<close>, not with the single dot,
  which only an entry \<^verbatim>\<open>index.js\<close> gets.
\<close>

theorem entry_name_counterexample:
  "builtNames (buildModules env0 (options0 ''/e.js'' files2)
      (getSources (options0 ''/e.js'' files2)) [''/e.js''] 0 []) = Some [''e'', ''a'']
   \<and> [''e'', ''a''] \<noteq> [''.'', ''a'']"
  by code_simp

section \<open>A Source without companion map\<close>

text \<open>
  Claim C8 says that a run with source maps on completes when a Source has no companion
  map. The code throws: \<^verbatim>\<open>emitModule\<close> parses the undefined \<^verbatim>\<open>mapContent\<close>.
\<close>

theorem missing_map_throws:
  "run env0 ((options0 ''/e.js'' files8) \<lparr> sourceMap := True \<rparr>) packer0 = Inl SyntaxError"
  by code_simp

section \<open>A file required twice\<close>

text \<open>The first Module of a graph is the Module of the entry.\<close>

lemma entry_module_first:
  assumes "buildModules E options srcs [entry options] 0 [] = Inr (Some ms)"
  shows "\<exists>m0 rest. ms = m0 # rest \<and> filename (source m0) = entry options
           \<and> processModule E options srcs (source m0) = Some m0"
proof -
  from buildModules_from_entry(1)[OF assms]
  have "\<exists>m0 rest. ms = m0 # rest \<and> filename (source m0) = entry options"
    by (cases ms) auto
  then obtain m0 rest where m: "ms = m0 # rest" "filename (source m0) = entry options" by blast
  with buildModules_from_entry(2)[OF assms]
  have "processModule E options srcs (source m0) = Some m0" by simp
  with m show ?thesis by blast
qed

text \<open>
  Claim C9 says that the names of the Modules of a graph are pairwise distinct. For an
  entry that requires one file twice the graph builder queues that file twice, and the run
  succeeds with two Modules of the same name.
\<close>

theorem module_built_twice:
  "builtNames (buildModules env0 (options0 ''/e.js'' files9)
      (getSources (options0 ''/e.js'' files9)) [''/e.js''] 0 []) = Some [''e'', ''a'', ''a'']
   \<and> \<not> distinct [''e'', ''a'', ''a'']
   \<and> succeeds (run env0 (options0 ''/e.js'' files9) packer0)"
  by code_simp

section \<open>The cleanup keeps what the graph needs\<close>

lemma foldl_spliceOut:
  "\<forall>x \<in> set pre. \<not> P x \<Longrightarrow>
   foldl spliceOut (pre @ xs) (filter P xs) = pre @ filter (\<lambda>x. \<not> P x) xs"
proof (induction xs arbitrary: pre)
  case Nil
  then show ?case by simp
next
  case (Cons x xs)
  show ?case
  proof (cases "P x")
    case True
    with Cons.prems have "x \<notin> set pre" by blast
    then have "spliceOut (pre @ x # xs) x = pre @ xs"
      by (simp add: spliceOut_def remove1_append)
    with True Cons.IH[OF Cons.prems] show ?thesis by simp
  next
    case False
    with Cons.prems have "\<forall>y \<in> set (pre @ [x]). \<not> P y" by simp
    from Cons.IH[OF this] False show ?thesis by simp
  qed
qed

lemma cleanupMemoryFile_filter:
  "cleanupMemoryFile modules fs = filter (\<lambda>f. \<not> isUnusedFile modules f) fs"
  using foldl_spliceOut[of "[]" "isUnusedFile modules" fs]
  by (simp add: cleanupMemoryFile_def)

lemma isUnusedFile_usedFile:
  "(\<not> isUnusedFile modules f) = usedFile ((\<lambda>m. filename (source m)) ` set modules) f"
  unfolding isUnusedFile_def usedFile_def list_ex_iff de_Morgan_conj not_not bex_simps
  by (intro iffI; elim disjE bexE; metis)

lemma endsWith_js_not_map: "endsWith (n @ ''.map'') ''.js'' = False"
  by (simp add: endsWith_def)

lemma find_filter:
  "(\<And>x. P x \<Longrightarrow> Q x) \<Longrightarrow> find P (filter Q xs) = find P xs"
  by (induction xs) auto

lemma getSources_filter:
  "getSources (options \<lparr> files := filter (usedFile M) (files options) \<rparr>)
     = filter (\<lambda>s. filename s \<in> M) (getSources options)"
proof -
  let ?fs = "files options"
  let ?mk = "\<lambda>(fs::MemoryFile list) (f::MemoryFile). \<lparr> filename = fileName f, jsContent = fileContent f,
               mapContent = map_option fileContent
                 (find (\<lambda>g. fileName g = fileName f @ ''.map'') fs) \<rparr>"
  have js: "\<And>f. endsWith (fileName f) ''.js'' \<Longrightarrow> usedFile M f = (fileName f \<in> M)"
    using endsWith_js_not_map by (auto simp: usedFile_def)
  have f1: "filter (\<lambda>x. usedFile M x \<and> endsWith (fileName x) ''.js'') ?fs
      = filter (\<lambda>x. endsWith (fileName x) ''.js'' \<and> fileName x \<in> M) ?fs"
    using js by (intro filter_cong) auto
  have mk: "\<And>f. fileName f \<in> M \<Longrightarrow> ?mk (filter (usedFile M) ?fs) f = ?mk ?fs f"
  proof -
    fix f :: MemoryFile assume "fileName f \<in> M"
    then have "\<And>g. fileName g = fileName f @ ''.map'' \<Longrightarrow> usedFile M g"
      by (auto simp: usedFile_def)
    from find_filter[of "\<lambda>g. fileName g = fileName f @ ''.map''" "usedFile M" ?fs, OF this]
    show "?mk (filter (usedFile M) ?fs) f = ?mk ?fs f" by simp
  qed
  have "getSources (options \<lparr> files := filter (usedFile M) ?fs \<rparr>)
      = map (?mk (filter (usedFile M) ?fs))
          (filter (\<lambda>x. endsWith (fileName x) ''.js'' \<and> fileName x \<in> M) ?fs)"
    by (simp add: getSources_def f1)
  also have "\<dots> = map (?mk ?fs)
          (filter (\<lambda>x. endsWith (fileName x) ''.js'' \<and> fileName x \<in> M) ?fs)"
    using mk by (intro map_cong) auto
  also have "\<dots> = filter (\<lambda>s. filename s \<in> M) (getSources options)"
    by (simp add: getSources_def filter_map comp_def)
  finally show ?thesis .
qed
section \<open>The graph of the kept files\<close>

lemma list_ex_filter_name:
  "f \<in> M \<Longrightarrow> list_ex (\<lambda>s. filename s = f) (filter (\<lambda>s. filename s \<in> M) srcs)
     = list_ex (\<lambda>s. filename s = f) srcs"
  by (auto simp: list_ex_iff)

lemma list_ex_filter_name_not:
  "\<not> list_ex (\<lambda>s. filename s = f) srcs \<Longrightarrow>
   \<not> list_ex (\<lambda>s. filename s = f) (filter (\<lambda>s. filename s \<in> M) srcs)"
  by (auto simp: list_ex_iff)

lemma requiredFileNameOf_filter:
  assumes "requiredFileNameOf srcs x = Some f" and "f \<in> M"
  shows "requiredFileNameOf (filter (\<lambda>s. filename s \<in> M) srcs) x = Some f"
proof (cases "list_ex (\<lambda>s. filename s = x) srcs")
  case True
  with assms(1) have "f = x" by (simp add: requiredFileNameOf_def)
  with True assms(2) show ?thesis
    by (simp add: requiredFileNameOf_def list_ex_filter_name)
next
  case n1: False
  show ?thesis
  proof (cases "list_ex (\<lambda>s. filename s = x @ ''.js'') srcs")
    case True
    with n1 assms(1) have "f = x @ ''.js''" by (simp add: requiredFileNameOf_def)
    with True n1 assms(2) list_ex_filter_name_not[OF n1, of M] show ?thesis
      by (simp add: requiredFileNameOf_def list_ex_filter_name)
  next
    case n2: False
    show ?thesis
    proof (cases "list_ex (\<lambda>s. filename s = x @ ''/index.js'') srcs")
      case True
      with n1 n2 assms(1) have "f = x @ ''/index.js''" by (simp add: requiredFileNameOf_def)
      with True assms(2) list_ex_filter_name_not[OF n1, of M] list_ex_filter_name_not[OF n2, of M]
      show ?thesis
        by (simp add: requiredFileNameOf_def list_ex_filter_name)
    next
      case False
      with n1 n2 assms(1) show ?thesis by (simp add: requiredFileNameOf_def)
    qed
  qed
qed

lemma scanRequests_extends:
  "scanRequests E options srcs src lastIndex reqs = Some res \<Longrightarrow> set reqs \<subseteq> set res"
  using scanRequests_wellPlaced[of E options srcs src lastIndex reqs res] by auto

lemma scanRequests_filter:
  "scanRequests E options srcs src lastIndex reqs = Some res \<Longrightarrow>
   \<forall>r \<in> set res. resolvedFileName r \<in> M \<Longrightarrow> entry options' = entry options \<Longrightarrow>
   scanRequests E options' (filter (\<lambda>s. filename s \<in> M) srcs) src lastIndex reqs = Some res"
proof (induction E options srcs src lastIndex reqs rule: scanRequests.induct)
  case (1 E options srcs src lastIndex reqs)
  let ?srcs = "filter (\<lambda>s. filename s \<in> M) srcs"
  show ?case
  proof (cases "exec (jsContent src) lastIndex")
    case None
    with "1.prems"(1) have "res = reqs"
      by (simp add: scanRequests.simps[of E options srcs src lastIndex reqs])
    moreover from None have "scanRequests E options' ?srcs src lastIndex reqs = Some reqs"
      by (simp add: scanRequests.simps[of E options' ?srcs src lastIndex reqs])
    ultimately show ?thesis by simp
  next
    case (Some p)
    obtain j rawText where p: "p = (j, rawText)" by (cases p)
    let ?r = "\<lambda>f. \<lparr> index = j, raw = rawText, resolvedFileName = f,
                      resolvedModuleName = requiredModuleNameOf E (entry options) f \<rparr>"
    from "1.prems"(1) Some p obtain f where
      f: "requiredFileNameOf srcs (resolve (cwd E) [dirname (filename src), rawText]) = Some f"
      and ne: "f \<noteq> []"
      and rec: "scanRequests E options srcs src (j + length (requireOpen @ rawText @ callClose))
          (reqs @ [?r f]) = Some res"
      by (auto simp: scanRequests.simps[of E options srcs src lastIndex reqs]
               split: option.splits if_splits)
    from scanRequests_extends[OF rec] have "?r f \<in> set res" by auto
    with "1.prems"(2) have "resolvedFileName (?r f) \<in> M" by blast
    then have fm: "f \<in> M" by simp
    from requiredFileNameOf_filter[OF f fm]
    have f': "requiredFileNameOf ?srcs (resolve (cwd E) [dirname (filename src), rawText]) = Some f" .
    from "1.IH"[OF Some p[symmetric] f ne rec "1.prems"(2,3)]
    have "scanRequests E options' ?srcs src (j + length (requireOpen @ rawText @ callClose))
          (reqs @ [?r f]) = Some res" .
    with Some p f' ne "1.prems"(3) show ?thesis
      by (simp add: scanRequests.simps[of E options' ?srcs src lastIndex reqs])
  qed
qed

lemma processModule_filter:
  assumes "processModule E options srcs src = Some m"
    and "resolvedFileName ` set (requests m) \<subseteq> M" and "entry options' = entry options"
  shows "processModule E options' (filter (\<lambda>s. filename s \<in> M) srcs) src = Some m"
proof -
  from assms(1) obtain reqs where
    s: "scanRequests E options srcs src 0 [] = Some reqs" and m: "requests m = reqs"
    by (auto simp: processModule_def Let_def split: option.splits)
  from assms(2) m have "\<forall>r \<in> set reqs. resolvedFileName r \<in> M" by auto
  from scanRequests_filter[OF s this assms(3)] s assms(1,3) show ?thesis
    by (simp add: processModule_def Let_def)
qed

lemma buildModules_extends:
  "buildModules E options srcs q i mods = Inr (Some ms) \<Longrightarrow> set mods \<subseteq> set ms"
proof (induction E options srcs q i mods rule: buildModules.induct)
  case (1 E options srcs q i mods)
  show ?case
  proof (cases "i < length q")
    case False
    with "1.prems" show ?thesis by (simp add: buildModules.simps[of E options srcs q i mods])
  next
    case True
    from "1.prems"(1) True obtain src m where
      fnd: "find (\<lambda>s. filename s = q ! i) srcs = Some src"
      and pm: "processModule E options srcs src = Some m"
      and rec: "buildModules E options srcs
          (q @ filter (\<lambda>f. f \<notin> set q) (map resolvedFileName (requests m)))
          (Suc i) (mods @ [m]) = Inr (Some ms)"
      by (auto simp: buildModules.simps[of E options srcs q i mods] split: option.splits)
    from "1.IH"[OF True fnd pm rec] show ?thesis by simp
  qed
qed

lemma buildModules_filter:
  "buildModules E options srcs q i mods = Inr (Some ms) \<Longrightarrow>
   \<forall>m \<in> set ms. filename (source m) \<in> M \<and> resolvedFileName ` set (requests m) \<subseteq> M \<Longrightarrow>
   entry options' = entry options \<Longrightarrow>
   buildModules E options' (filter (\<lambda>s. filename s \<in> M) srcs) q i mods = Inr (Some ms)"
proof (induction E options srcs q i mods rule: buildModules.induct)
  case (1 E options srcs q i mods)
  let ?srcs = "filter (\<lambda>s. filename s \<in> M) srcs"
  show ?case
  proof (cases "i < length q")
    case False
    with "1.prems"(1) have "ms = mods"
      by (simp add: buildModules.simps[of E options srcs q i mods])
    moreover from False have "buildModules E options' ?srcs q i mods = Inr (Some mods)"
      by (simp add: buildModules.simps[of E options' ?srcs q i mods])
    ultimately show ?thesis by simp
  next
    case True
    from "1.prems"(1) True obtain src m where
      fnd: "find (\<lambda>s. filename s = q ! i) srcs = Some src"
      and pm: "processModule E options srcs src = Some m"
      and rec: "buildModules E options srcs
          (q @ filter (\<lambda>f. f \<notin> set q) (map resolvedFileName (requests m)))
          (Suc i) (mods @ [m]) = Inr (Some ms)"
      by (auto simp: buildModules.simps[of E options srcs q i mods] split: option.splits)
    from buildModules_extends[OF rec] have "m \<in> set ms" by simp
    with "1.prems"(2) have mM: "filename (source m) \<in> M"
      "resolvedFileName ` set (requests m) \<subseteq> M" by auto
    from fnd have fn: "filename src = q ! i" by (auto simp: find_Some_iff)
    from pm have sm: "source m = src" by (rule processModule_source)
    from mM(1) fn sm have "q ! i \<in> M" by simp
    then have "\<And>s. filename s = q ! i \<Longrightarrow> filename s \<in> M" by simp
    from find_filter[of "\<lambda>s. filename s = q ! i" "\<lambda>s. filename s \<in> M" srcs, OF this] fnd
    have fnd': "find (\<lambda>s. filename s = q ! i) ?srcs = Some src" by simp
    from processModule_filter[OF pm mM(2) "1.prems"(3)]
    have pm': "processModule E options' ?srcs src = Some m" .
    from "1.IH"[OF True fnd pm rec "1.prems"(2,3)]
    have "buildModules E options' ?srcs
          (q @ filter (\<lambda>f. f \<notin> set q) (map resolvedFileName (requests m)))
          (Suc i) (mods @ [m]) = Inr (Some ms)" .
    with True fnd' pm' show ?thesis
      by (simp add: buildModules.simps[of E options' ?srcs q i mods])
  qed
qed
section \<open>A second run\<close>

lemma run_success_cases:
  assumes "run E options this = Inr out" and "success (result out)"
  shows "\<exists>modules resultJs resultMap.
           list_ex (\<lambda>s. filename s = entry options) (getSources options)
         \<and> buildModules E options (getSources options) [entry options] 0 [] = Inr (Some modules)
         \<and> checkCircularReference modules = Inr False
         \<and> emitBundle E options modules = Inr (resultJs, resultMap)
         \<and> finishRun E options (this \<lparr> sources := Some (getSources options) \<rparr>) modules
               resultJs resultMap = Inr out"
proof -
  have e: "list_ex (\<lambda>s. filename s = entry options) (getSources options)"
  proof (rule ccontr)
    assume "\<not> list_ex (\<lambda>s. filename s = entry options) (getSources options)"
    with assms(1) have "out = failure options (this \<lparr> sources := Some (getSources options) \<rparr>)"
      by (simp add: run_def Let_def)
    with assms(2) show False by (simp add: failure_def)
  qed
  from run_cases[OF assms(1)] assms(2) e show ?thesis
    by (auto simp: failure_def)
qed

lemma run_success_path:
  assumes "list_ex (\<lambda>s. filename s = entry options) (getSources options)"
    and "buildModules E options (getSources options) [entry options] 0 [] = Inr (Some modules)"
    and "checkCircularReference modules = Inr False"
    and "emitBundle E options modules = Inr (resultJs, resultMap)"
  shows "run E options this =
           finishRun E options (this \<lparr> sources := Some (getSources options) \<rparr>) modules
             resultJs resultMap"
  using assms by (simp add: run_def Let_def)

lemma emitRuntimePrefix_files:
  "emitRuntimePrefix (options \<lparr> files := fs \<rparr>) host n = emitRuntimePrefix options host n"
  by (simp add: emitRuntimePrefix_def)

lemma emitBundle_files:
  "emitBundle E (options \<lparr> files := fs \<rparr>) modules = emitBundle E options modules"
  by (cases modules)
     (simp_all add: emitBundle_def emitRuntimePrefix_files Let_def split: sum.splits)

lemma finishRun_Inr:
  assumes "finishRun E options this modules resultJs resultMap = Inr out"
  shows "result out = \<lparr> success = True, hasChange = Some (Some (sha256 E resultJs) \<noteq> lastHash this) \<rparr>"
    and "lastHash (packer out) = Some (sha256 E resultJs)"
    and "filesAfter out = files options \<or> filesAfter out = cleanupMemoryFile modules (files options)"
    and "written out = (outputPath options, resultJs)
           # (if sourceMap options
              then (case resultMap of None \<Rightarrow> [] | Some mapText \<Rightarrow> [(outputPath options @ ''.map'', mapText)])
              else [])"
    and "sourceMap options \<Longrightarrow> resultMap \<noteq> None"
  using assms by (auto simp: finishRun_def Let_def split: if_splits option.splits)

lemma finishRun_again:
  assumes "finishRun E options this modules resultJs resultMap = Inr out"
    and "lastHash this2 = Some (sha256 E resultJs)"
  shows "\<exists>out2. finishRun E (options \<lparr> files := fs \<rparr>) this2 modules resultJs resultMap = Inr out2
     \<and> result out2 = \<lparr> success = True, hasChange = Some False \<rparr>
     \<and> written out2 = written out"
  using assms by (auto simp: finishRun_def Let_def split: if_splits option.splits)

lemma rerun_same_graph:
  assumes first: "finishRun E options this1 modules resultJs resultMap = Inr out"
    and e: "list_ex (\<lambda>s. filename s = entry options) (getSources (options \<lparr> files := fs \<rparr>))"
    and b: "buildModules E (options \<lparr> files := fs \<rparr>) (getSources (options \<lparr> files := fs \<rparr>))
               [entry options] 0 [] = Inr (Some modules)"
    and c: "checkCircularReference modules = Inr False"
    and em: "emitBundle E options modules = Inr (resultJs, resultMap)"
  shows "\<exists>out2. run E (options \<lparr> files := fs \<rparr>) (packer out) = Inr out2
     \<and> result out2 = \<lparr> success = True, hasChange = Some False \<rparr>
     \<and> written out2 = written out"
proof -
  let ?o = "options \<lparr> files := fs \<rparr>"
  from e have e': "list_ex (\<lambda>s. filename s = entry ?o) (getSources ?o)" by simp
  from b have b': "buildModules E ?o (getSources ?o) [entry ?o] 0 [] = Inr (Some modules)" by simp
  from em have em': "emitBundle E ?o modules = Inr (resultJs, resultMap)"
    by (simp add: emitBundle_files)
  have r: "run E ?o (packer out) =
      finishRun E ?o ((packer out) \<lparr> sources := Some (getSources ?o) \<rparr>) modules resultJs resultMap"
    by (rule run_success_path[OF e' b' c em'])
  from finishRun_Inr(2)[OF first]
  have "lastHash ((packer out) \<lparr> sources := Some (getSources ?o) \<rparr>) = Some (sha256 E resultJs)"
    by simp
  from finishRun_again[OF first this, of fs] r show ?thesis by simp
qed

text \<open>
  Claim C7. A successful run writes the bundle to the output path, whatever
  \<^verbatim>\<open>hasChange\<close> is. A second run of the same instance on the same file contents (the file
  list as it was, or as the cleanup of the first run left it) succeeds with
  \<^verbatim>\<open>hasChange\<close> false and writes the same files with the same text.
\<close>

theorem hash_stability_and_write:
  assumes "run E options this = Inr out" and "success (result out)"
  shows "(\<exists>resultJs rest. written out = (outputPath options, resultJs) # rest)
       \<and> (\<forall>fs \<in> {files options, filesAfter out}.
            \<exists>out2. run E (options \<lparr> files := fs \<rparr>) (packer out) = Inr out2
              \<and> result out2 = \<lparr> success = True, hasChange = Some False \<rparr>
              \<and> written out2 = written out)"
proof -
  let ?srcs = "getSources options"
  from run_success_cases[OF assms] obtain modules resultJs resultMap where
    e: "list_ex (\<lambda>s. filename s = entry options) ?srcs"
    and b: "buildModules E options ?srcs [entry options] 0 [] = Inr (Some modules)"
    and c: "checkCircularReference modules = Inr False"
    and em: "emitBundle E options modules = Inr (resultJs, resultMap)"
    and fin: "finishRun E options (this \<lparr> sources := Some ?srcs \<rparr>) modules resultJs resultMap = Inr out"
    by blast
  from finishRun_Inr(4)[OF fin]
  have w: "\<exists>resultJs rest. written out = (outputPath options, resultJs) # rest" by blast
  have same: "\<exists>out2. run E (options \<lparr> files := files options \<rparr>) (packer out) = Inr out2
              \<and> result out2 = \<lparr> success = True, hasChange = Some False \<rparr>
              \<and> written out2 = written out"
    using rerun_same_graph[OF fin _ _ c em, of "files options"] e b by simp
  let ?M = "(\<lambda>m. filename (source m)) ` set modules"
  let ?fs = "cleanupMemoryFile modules (files options)"
  have cleaned: "\<exists>out2. run E (options \<lparr> files := ?fs \<rparr>) (packer out) = Inr out2
              \<and> result out2 = \<lparr> success = True, hasChange = Some False \<rparr>
              \<and> written out2 = written out"
  proof -
    have fs: "?fs = filter (usedFile ?M) (files options)"
      by (simp add: cleanupMemoryFile_filter isUnusedFile_usedFile)
    have srcs: "getSources (options \<lparr> files := ?fs \<rparr>) = filter (\<lambda>s. filename s \<in> ?M) ?srcs"
      by (simp only: fs getSources_filter)
    from buildModules_from_entry(1)[OF b]
    have "entry options \<in> set (map (\<lambda>m. filename (source m)) modules)" by auto
    then have eM: "entry options \<in> ?M" by simp
    with e have e2: "list_ex (\<lambda>s. filename s = entry options) (getSources (options \<lparr> files := ?fs \<rparr>))"
      by (simp only: srcs list_ex_filter_name)
    from buildModules_from_entry(3)[OF b]
    have "\<forall>m \<in> set modules. filename (source m) \<in> ?M \<and> resolvedFileName ` set (requests m) \<subseteq> ?M"
      by auto
    from buildModules_filter[OF b this, of "options \<lparr> files := ?fs \<rparr>"]
    have b2: "buildModules E (options \<lparr> files := ?fs \<rparr>) (getSources (options \<lparr> files := ?fs \<rparr>))
               [entry options] 0 [] = Inr (Some modules)"
      by (simp only: srcs) simp
    from rerun_same_graph[OF fin e2 b2 c em] show ?thesis .
  qed
  from finishRun_Inr(3)[OF fin] same cleaned w show ?thesis by auto
qed
theorem hash_stability_and_write_witness:
  "run env0 (options0 ''/e.js'' files7) packer0 = Inr outcome7
   \<and> success (result outcome7)
   \<and> written outcome7 = [(outputPath (options0 ''/e.js'' files7), bundle7)]
   \<and> filesAfter outcome7 = files2 \<and> files (options0 ''/e.js'' files7) = files7
   \<and> (\<exists>out2. run env0 ((options0 ''/e.js'' files7) \<lparr> files := files2 \<rparr>) (packer outcome7) = Inr out2
          \<and> result out2 = \<lparr> success = True, hasChange = Some False \<rparr>
          \<and> written out2 = written outcome7)
   \<and> (\<exists>out2. run env0 ((options0 ''/e.js'' files7) \<lparr> files := files7 \<rparr>) (packer outcome7) = Inr out2
          \<and> result out2 = \<lparr> success = True, hasChange = Some False \<rparr>
          \<and> written out2 = written outcome7)"
proof -
  have r: "run env0 (options0 ''/e.js'' files7) packer0 = Inr outcome7"
    by code_simp
  have s: "success (result outcome7)" by (simp add: outcome7_def)
  have w: "written outcome7 = [(outputPath (options0 ''/e.js'' files7), bundle7)]"
    by (simp add: outcome7_def options0_def)
  have f: "filesAfter outcome7 = files2" "files (options0 ''/e.js'' files7) = files7"
    by (simp_all add: outcome7_def options0_def)
  from hash_stability_and_write[OF r s] f
  have "\<forall>fs \<in> {files7, files2}.
            \<exists>out2. run env0 ((options0 ''/e.js'' files7) \<lparr> files := fs \<rparr>) (packer outcome7) = Inr out2
              \<and> result out2 = \<lparr> success = True, hasChange = Some False \<rparr>
              \<and> written out2 = written outcome7"
    by simp
  with r s w f show ?thesis by simp
qed

end
